theory Spec2Isabelle
  imports Main "HOL-Library.Sublist"
begin

section \<open>The bounded recency cache (src/utils/bounded-map.ts)\<close>

text \<open>
  \<open>BoundedMap<K, V>\<close> wraps a JavaScript \<open>Map\<close>. A JavaScript \<open>Map\<close> iterates its
  entries in insertion order and holds each key once, so it is modelled as an association
  list in insertion order. The member \<open>keys().next().value\<close> is \<open>undefined\<close> both for an
  empty \<open>Map\<close> and for a \<open>Map\<close> whose first key is the value \<open>undefined\<close>; the type
  parameter \<open>K\<close> does not exclude that value, so the keys of the model are \<open>'k jskey\<close>,
  with \<open>Undefined\<close> for the JavaScript value \<open>undefined\<close>.
  The field \<open>maxSize\<close> is a JavaScript number; integral capacities are modelled.
\<close>

datatype 'k jskey = Undefined | Key 'k

type_synonym ('k, 'v) jsmap = "('k jskey \<times> 'v) list"

definition jsmap_has :: "('k, 'v) jsmap \<Rightarrow> 'k jskey \<Rightarrow> bool" where
  "jsmap_has m k = (k \<in> set (map fst m))"

definition jsmap_get :: "('k, 'v) jsmap \<Rightarrow> 'k jskey \<Rightarrow> 'v option" where
  "jsmap_get m k = map_of m k"

definition jsmap_delete :: "('k, 'v) jsmap \<Rightarrow> 'k jskey \<Rightarrow> ('k, 'v) jsmap" where
  "jsmap_delete m k = filter (\<lambda>e. fst e \<noteq> k) m"

text \<open>\<open>Map.prototype.set\<close>: a present key keeps its position, a new key goes last.\<close>

definition jsmap_set :: "('k, 'v) jsmap \<Rightarrow> 'k jskey \<Rightarrow> 'v \<Rightarrow> ('k, 'v) jsmap" where
  "jsmap_set m k v =
     (if jsmap_has m k then map (\<lambda>e. if fst e = k then (k, v) else e) m
      else m @ [(k, v)])"

text \<open>\<open>map.keys().next().value\<close>: the first key, \<open>undefined\<close> when there is none.\<close>

definition jsmap_first_key :: "('k, 'v) jsmap \<Rightarrow> 'k jskey" where
  "jsmap_first_key m = (case m of [] \<Rightarrow> Undefined | e # _ \<Rightarrow> fst e)"

record ('k, 'v) BoundedMap =
  bm_map :: "('k, 'v) jsmap"
  bm_maxSize :: int

definition bm_new :: "int \<Rightarrow> ('k, 'v) BoundedMap" where
  "bm_new n = \<lparr>bm_map = [], bm_maxSize = n\<rparr>"

definition bm_get :: "('k, 'v) BoundedMap \<Rightarrow> 'k jskey \<Rightarrow> 'v option" where
  "bm_get b k = jsmap_get (bm_map b) k"

definition bm_has :: "('k, 'v) BoundedMap \<Rightarrow> 'k jskey \<Rightarrow> bool" where
  "bm_has b k = jsmap_has (bm_map b) k"

definition bm_size :: "('k, 'v) BoundedMap \<Rightarrow> nat" where
  "bm_size b = length (bm_map b)"

definition bm_keys :: "('k, 'v) BoundedMap \<Rightarrow> 'k jskey list" where
  "bm_keys b = map fst (bm_map b)"

definition bm_set :: "('k, 'v) BoundedMap \<Rightarrow> 'k jskey \<Rightarrow> 'v \<Rightarrow> ('k, 'v) BoundedMap" where
  "bm_set b k v =
     (let m1 =
        (if jsmap_has (bm_map b) k then jsmap_delete (bm_map b) k
         else if bm_maxSize b \<le> int (length (bm_map b)) then
           (let oldest = jsmap_first_key (bm_map b)
            in if oldest \<noteq> Undefined then jsmap_delete (bm_map b) oldest else bm_map b)
         else bm_map b)
      in b\<lparr>bm_map := jsmap_set m1 k v\<rparr>)"

definition bm_delete :: "('k, 'v) BoundedMap \<Rightarrow> 'k jskey \<Rightarrow> bool \<times> ('k, 'v) BoundedMap" where
  "bm_delete b k = (jsmap_has (bm_map b) k, b\<lparr>bm_map := jsmap_delete (bm_map b) k\<rparr>)"

definition bm_clear :: "('k, 'v) BoundedMap \<Rightarrow> ('k, 'v) BoundedMap" where
  "bm_clear b = b\<lparr>bm_map := []\<rparr>"

text \<open>A sequence of calls on one cache; \<open>get\<close> reads and leaves the cache as it is.\<close>

datatype ('k, 'v) bm_op = OpSet "'k jskey" 'v | OpGet "'k jskey" | OpDelete "'k jskey" | OpClear

fun bm_apply :: "('k, 'v) bm_op \<Rightarrow> ('k, 'v) BoundedMap \<Rightarrow> ('k, 'v) BoundedMap" where
  "bm_apply (OpSet k v) b = bm_set b k v"
| "bm_apply (OpGet k) b = b"
| "bm_apply (OpDelete k) b = snd (bm_delete b k)"
| "bm_apply OpClear b = bm_clear b"

fun bm_run :: "('k, 'v) bm_op list \<Rightarrow> ('k, 'v) BoundedMap \<Rightarrow> ('k, 'v) BoundedMap" where
  "bm_run [] b = b"
| "bm_run (x # xs) b = bm_run xs (bm_apply x b)"

text \<open>The keys a sequence of calls passes to \<open>set\<close>.\<close>

fun set_keys :: "('k, 'v) bm_op list \<Rightarrow> 'k jskey list" where
  "set_keys [] = []"
| "set_keys (OpSet k v # xs) = k # set_keys xs"
| "set_keys (x # xs) = set_keys xs"

text \<open>
  The invariant of a cache built through its own methods with keys other than \<open>undefined\<close>:
  the keys are pairwise different, none is \<open>undefined\<close>, and the size is within the capacity.
\<close>

definition bm_inv :: "('k, 'v) BoundedMap \<Rightarrow> bool" where
  "bm_inv b = (distinct (bm_keys b) \<and> Undefined \<notin> set (bm_keys b) \<and> int (bm_size b) \<le> bm_maxSize b)"

text \<open>
  \<open>age ops k\<close> counts the calls made since the last \<open>set\<close> of key \<open>k\<close> in the call
  sequence \<open>ops\<close>: the larger the age, the longer ago the key was last inserted or re-set.
\<close>

fun is_set_of :: "'k jskey \<Rightarrow> ('k, 'v) bm_op \<Rightarrow> bool" where
  "is_set_of k (OpSet k' v) = (k' = k)"
| "is_set_of k x = False"

definition age :: "('k, 'v) bm_op list \<Rightarrow> 'k jskey \<Rightarrow> nat" where
  "age ops k = length (takeWhile (\<lambda>x. \<not> is_set_of k x) (rev ops))"


section \<open>The execution queue and the cancellation registry (request queue module)\<close>

text \<open>
  The module keeps five module-level containers keyed by the session key and exports
  functions on them. JavaScript runs it on one thread: a function body runs without
  interruption up to its next \<open>await\<close>, and the code after an \<open>await\<close> runs in a later
  turn, when the awaited promise has settled. Each such uninterrupted segment is one
  function of the model, from state to state. The two suspension points of the module are
  \<open>await request.handler()\<close> in \<open>processQueue\<close> and \<open>await q.interrupt()\<close> in
  \<open>cancelRequest\<close> and \<open>resetRequest\<close>; the local variables that a suspended call
  holds are kept in the state as a frame until the call is resumed.
\<close>

type_synonym key = string

text \<open>
  Values an operation returns or throws. An \<open>Error\<close> instance is represented by its
  message. Strings, booleans, \<open>null\<close> and \<open>undefined\<close> are values that are not \<open>Error\<close>
  instances. \<open>JObject\<close> stands for any other object that is not an \<open>Error\<close> instance:
  \<open>JObject (Some t)\<close> is an object that \<open>String\<close> converts to \<open>t\<close>, and \<open>JObject None\<close> is
  an object for which \<open>String\<close> throws, as it does for an object with neither a usable
  \<open>toString\<close> nor a usable \<open>valueOf\<close> (\<open>Object.create(null)\<close>).
\<close>

datatype jsval =
  JError string | JString string | JBool bool | JNull | JUndefined | JObject "string option"

fun instanceof_Error :: "jsval \<Rightarrow> bool" where
  "instanceof_Error (JError m) = True"
| "instanceof_Error v = False"

text \<open>The JavaScript conversion \<open>String(v)\<close>: \<open>None\<close> when the conversion throws.\<close>

fun js_String :: "jsval \<Rightarrow> string option" where
  "js_String (JError m) = Some (''Error: '' @ m)"
| "js_String (JString s) = Some s"
| "js_String (JBool b) = Some (if b then ''true'' else ''false'')"
| "js_String JNull = Some ''null''"
| "js_String JUndefined = Some ''undefined''"
| "js_String (JObject t) = t"

text \<open>
  The argument of \<open>request.reject\<close> in the \<open>catch\<close> block,
  \<open>error instanceof Error ? error : new Error(String(error))\<close>: \<open>None\<close> when its
  evaluation throws.
\<close>

definition rejection :: "jsval \<Rightarrow> jsval option" where
  "rejection e = (if instanceof_Error e then Some e else map_option JError (js_String e))"

text \<open>
  A \<open>QueuedRequest\<close>. Its \<open>handler\<close> is a function of the caller, named by a number; its
  \<open>resolve\<close> and \<open>reject\<close> are the two functions of the promise that \<open>queueRequest\<close>
  created for it, so the request holds the number of that promise.
\<close>

record request =
  message :: string
  handler :: nat
  promise :: nat

text \<open>How an awaited promise settles: fulfilled with a value, or rejected with what was thrown.\<close>

datatype outcome = Fulfilled jsval | Threw jsval

text \<open>
  What the module does to the outside, in order. \<open>Enqueued k p\<close>: the request of promise
  \<open>p\<close> was pushed on the queue of \<open>k\<close>. \<open>HandlerCalled k p h\<close>: \<open>processQueue(k)\<close> called
  handler \<open>h\<close> of the request of promise \<open>p\<close>. \<open>Resolved\<close> and \<open>Rejected\<close>: a request's
  \<open>resolve\<close> or \<open>reject\<close> was called. \<open>Interrupted q c\<close>: \<open>interrupt()\<close> was called on
  query \<open>q\<close>, and \<open>c\<close> is what \<open>isCancelled\<close> of the session key answers at that moment.
  \<open>Aborted a c\<close>: \<open>abort()\<close> was called on controller \<open>a\<close>, with \<open>c\<close> as before.
  \<open>DebugLogged k e\<close>: \<open>console.debug\<close> reported that \<open>interrupt()\<close> threw \<open>e\<close>.
\<close>

datatype action =
    Enqueued key nat
  | HandlerCalled key nat nat
  | Resolved nat jsval
  | Rejected nat jsval
  | Interrupted nat bool
  | Aborted nat bool
  | DebugLogged key jsval

record state =
  activeAbortControllers :: "key \<rightharpoonup> nat"
  activeQueries :: "key \<rightharpoonup> nat"
  pendingQueues :: "key \<rightharpoonup> request list"
  processingFlags :: "key \<rightharpoonup> bool"
  cancelledChats :: "key set"
  running :: "(key \<times> request) list"
  cancelling :: "key list"
  resetting :: "(key \<times> nat option) list"
  nextPromise :: nat
  trace :: "action list"

text \<open>
  \<open>running\<close> holds the calls of \<open>processQueue\<close> suspended at \<open>await request.handler()\<close>,
  each with its \<open>sessionKey\<close> and \<open>request\<close>; \<open>cancelling\<close> the calls of \<open>cancelRequest\<close>
  suspended at \<open>await q.interrupt()\<close>; \<open>resetting\<close> those of \<open>resetRequest\<close>, each with
  the \<open>controller\<close> it read before the \<open>await\<close>. \<open>nextPromise\<close> numbers the promises
  that \<open>queueRequest\<close> creates.
\<close>

definition init :: state where
  "init = \<lparr>activeAbortControllers = Map.empty, activeQueries = Map.empty,
     pendingQueues = Map.empty, processingFlags = Map.empty, cancelledChats = {},
     running = [], cancelling = [], resetting = [], nextPromise = 0, trace = []\<rparr>"

definition emit :: "action \<Rightarrow> state \<Rightarrow> state" where
  "emit a s = s\<lparr>trace := trace s @ [a]\<rparr>"

definition getAbortController :: "key \<Rightarrow> state \<Rightarrow> nat option" where
  "getAbortController k s = activeAbortControllers s k"

definition setAbortController :: "key \<Rightarrow> nat \<Rightarrow> state \<Rightarrow> state" where
  "setAbortController k c s = s\<lparr>activeAbortControllers := (activeAbortControllers s)(k \<mapsto> c)\<rparr>"

definition clearAbortController :: "key \<Rightarrow> state \<Rightarrow> state" where
  "clearAbortController k s = s\<lparr>activeAbortControllers := (activeAbortControllers s)(k := None)\<rparr>"

definition setActiveQuery :: "key \<Rightarrow> nat \<Rightarrow> state \<Rightarrow> state" where
  "setActiveQuery k q s = s\<lparr>activeQueries := (activeQueries s)(k \<mapsto> q)\<rparr>"

definition clearActiveQuery :: "key \<Rightarrow> state \<Rightarrow> state" where
  "clearActiveQuery k s = s\<lparr>activeQueries := (activeQueries s)(k := None)\<rparr>"

definition isCancelled :: "key \<Rightarrow> state \<Rightarrow> bool" where
  "isCancelled k s = (k \<in> cancelledChats s)"

definition clearCancelled :: "key \<Rightarrow> state \<Rightarrow> state" where
  "clearCancelled k s = s\<lparr>cancelledChats := cancelledChats s - {k}\<rparr>"

definition isProcessing :: "key \<Rightarrow> state \<Rightarrow> bool" where
  "isProcessing k s = (processingFlags s k = Some True)"

definition getQueuePosition :: "key \<Rightarrow> state \<Rightarrow> nat" where
  "getQueuePosition k s = (case pendingQueues s k of None \<Rightarrow> 0 | Some q \<Rightarrow> length q)"

text \<open>
  \<open>processQueue\<close> up to its \<open>await\<close>: nothing when the flag of the key is set or the queue
  is missing or empty; otherwise the flag is set, the head is shifted off the queue and
  its handler is called, and the call is suspended with its request. A handler that
  throws before it returns a promise is caught by the same \<open>try\<close> block; in the model that
  is this segment followed at once by the settlement \<open>Threw\<close>.
\<close>

definition processQueue :: "key \<Rightarrow> state \<Rightarrow> state" where
  "processQueue k s =
     (if processingFlags s k = Some True then s
      else case pendingQueues s k of
          None \<Rightarrow> s
        | Some [] \<Rightarrow> s
        | Some (r # rest) \<Rightarrow>
            (emit (HandlerCalled k (promise r) (handler r))
               (s\<lparr>processingFlags := (processingFlags s)(k \<mapsto> True),
                  pendingQueues := (pendingQueues s)(k \<mapsto> rest)\<rparr>))
              \<lparr>running := running s @ [(k, r)]\<rparr>)"

text \<open>
  \<open>queueRequest\<close>: the executor of the new promise runs at once. It builds the request,
  creates the queue of the key when there is none, pushes the request and calls
  \<open>processQueue\<close>. The result is the new promise.
\<close>

definition queueRequest :: "key \<Rightarrow> string \<Rightarrow> nat \<Rightarrow> state \<Rightarrow> nat \<times> state" where
  "queueRequest k msg h s =
     (let p = nextPromise s;
          r = \<lparr>message = msg, handler = h, promise = p\<rparr>;
          queue = (case pendingQueues s k of None \<Rightarrow> [] | Some q \<Rightarrow> q);
          s1 = emit (Enqueued k p)
                 (s\<lparr>nextPromise := Suc p, pendingQueues := (pendingQueues s)(k \<mapsto> queue @ [r])\<rparr>)
      in (p, processQueue k s1))"

text \<open>
  The \<open>try\<close> and \<open>catch\<close> blocks of \<open>processQueue\<close> once the handler's promise has
  settled. When the evaluation of the argument of \<open>request.reject\<close> throws, \<open>reject\<close> is not
  called; the \<open>finally\<close> block still runs, and the exception then leaves \<open>processQueue\<close> as
  the rejection of the promise that \<open>processQueue\<close> returned, which no caller holds.
\<close>

definition deliver :: "request \<Rightarrow> outcome \<Rightarrow> state \<Rightarrow> state" where
  "deliver r out s =
     (case out of
        Fulfilled v \<Rightarrow> emit (Resolved (promise r) v) s
      | Threw e \<Rightarrow>
          (case rejection e of
             Some v \<Rightarrow> emit (Rejected (promise r) v) s
           | None \<Rightarrow> s))"

text \<open>The four statements that open the \<open>finally\<close> block of \<open>processQueue\<close>.\<close>

definition cleanup :: "key \<Rightarrow> state \<Rightarrow> state" where
  "cleanup k s =
     clearCancelled k (clearActiveQuery k (clearAbortController k
       (s\<lparr>processingFlags := (processingFlags s)(k \<mapsto> False)\<rparr>)))"

text \<open>
  \<open>processQueue\<close> from its \<open>await\<close> on. The variable \<open>queue\<close> of the suspended call is the
  array that \<open>pendingQueues\<close> holds for the key: the module stores an array for a key once
  and never replaces or removes it, and \<open>clearQueue\<close> empties that same array.
\<close>

definition processQueue_resume :: "key \<Rightarrow> request \<Rightarrow> outcome \<Rightarrow> state \<Rightarrow> state" where
  "processQueue_resume k r out s =
     (let s1 = cleanup k (deliver r out s)
      in case pendingQueues s1 k of
           Some (r' # rest) \<Rightarrow> processQueue k s1
         | _ \<Rightarrow> s1)"

text \<open>
  \<open>cancelRequest\<close> up to its \<open>await\<close>, or to its end when it has none. The first
  component is the returned boolean, \<open>None\<close> when the call is suspended at
  \<open>await q.interrupt()\<close>. \<open>Query.interrupt\<close> is an asynchronous method: it returns a
  promise, and the code after the \<open>await\<close> runs in a later turn.
\<close>

definition cancelRequest :: "key \<Rightarrow> state \<Rightarrow> bool option \<times> state" where
  "cancelRequest k s =
     (case activeQueries s k of
        Some q \<Rightarrow>
          (let s1 = s\<lparr>cancelledChats := insert k (cancelledChats s)\<rparr>;
               s2 = emit (Interrupted q (isCancelled k s1)) s1
           in (None, s2\<lparr>cancelling := cancelling s2 @ [k]\<rparr>))
      | None \<Rightarrow>
          (case activeAbortControllers s k of
             Some c \<Rightarrow>
               (let s1 = s\<lparr>cancelledChats := insert k (cancelledChats s)\<rparr>;
                    s2 = emit (Aborted c (isCancelled k s1)) s1
                in (Some True, clearAbortController k s2))
           | None \<Rightarrow> (Some False, s)))"

text \<open>\<open>cancelRequest\<close> from its \<open>await\<close> on; \<open>io\<close> is how the promise of \<open>interrupt()\<close> settled.\<close>

definition cancelRequest_resume :: "key \<Rightarrow> outcome \<Rightarrow> state \<Rightarrow> bool \<times> state" where
  "cancelRequest_resume k io s =
     (let s1 = (case io of Fulfilled v \<Rightarrow> s | Threw e \<Rightarrow> emit (DebugLogged k e) s)
      in (True, clearActiveQuery k s1))"

definition resetRequest :: "key \<Rightarrow> state \<Rightarrow> bool option \<times> state" where
  "resetRequest k s =
     (let q = activeQueries s k; controller = activeAbortControllers s k
      in case q of
           Some qq \<Rightarrow>
             (let s1 = s\<lparr>cancelledChats := insert k (cancelledChats s)\<rparr>;
                  s2 = emit (Interrupted qq (isCancelled k s1)) s1
              in (None, s2\<lparr>resetting := resetting s2 @ [(k, controller)]\<rparr>))
         | None \<Rightarrow>
             (case controller of
                Some c \<Rightarrow>
                  (let s1 = s\<lparr>cancelledChats := insert k (cancelledChats s)\<rparr>;
                       s2 = emit (Aborted c (isCancelled k s1)) s1
                   in (Some True, clearAbortController k s2))
              | None \<Rightarrow> (Some False, s)))"

definition resetRequest_resume :: "key \<Rightarrow> nat option \<Rightarrow> outcome \<Rightarrow> state \<Rightarrow> bool \<times> state" where
  "resetRequest_resume k controller io s =
     (let s1 = (case io of Fulfilled v \<Rightarrow> s | Threw e \<Rightarrow> emit (DebugLogged k e) s);
          s2 = (case controller of Some c \<Rightarrow> emit (Aborted c (isCancelled k s1)) s1 | None \<Rightarrow> s1)
      in (True, clearAbortController k (clearActiveQuery k s2)))"

text \<open>The loop of \<open>clearQueue\<close>: each request is rejected with a new \<open>Error('Queue cleared')\<close>.\<close>

fun reject_each :: "request list \<Rightarrow> state \<Rightarrow> state" where
  "reject_each [] s = s"
| "reject_each (r # rs) s = reject_each rs (emit (Rejected (promise r) (JError ''Queue cleared'')) s)"

definition clearQueue :: "key \<Rightarrow> state \<Rightarrow> nat \<times> state" where
  "clearQueue k s =
     (case pendingQueues s k of
        None \<Rightarrow> (0, s)
      | Some queue \<Rightarrow>
          (length queue,
           (reject_each queue s)\<lparr>pendingQueues := (pendingQueues (reject_each queue s))(k \<mapsto> [])\<rparr>))"

subsection \<open>Runs of the module\<close>

text \<open>
  What can happen to the module between two turns: a call of an exported function, or the
  settling of a promise that a suspended call awaits. \<open>HandlerSettled p out\<close>: the promise
  returned by the handler of the request of promise \<open>p\<close> settled with \<open>out\<close>.
  \<open>CancelInterruptSettled k io\<close> and \<open>ResetInterruptSettled k c io\<close>: the promise of
  \<open>interrupt()\<close> awaited by a suspended \<open>cancelRequest(k)\<close>, or by a suspended
  \<open>resetRequest(k)\<close> that read controller \<open>c\<close>, settled with \<open>io\<close>. An event for which no
  suspended call exists cannot happen, and changes nothing in the model.
\<close>

datatype event =
    QueueRequest key string nat
  | HandlerSettled nat outcome
  | CancelRequest key
  | CancelInterruptSettled key outcome
  | ResetRequest key
  | ResetInterruptSettled key "nat option" outcome
  | ClearQueue key
  | SetAbortController key nat
  | ClearAbortController key
  | SetActiveQuery key nat
  | ClearActiveQuery key
  | ClearCancelled key

fun step :: "event \<Rightarrow> state \<Rightarrow> state" where
  "step (QueueRequest k msg h) s = snd (queueRequest k msg h s)"
| "step (HandlerSettled p out) s =
     (case find (\<lambda>f. promise (snd f) = p) (running s) of
        None \<Rightarrow> s
      | Some f \<Rightarrow> processQueue_resume (fst f) (snd f) out (s\<lparr>running := remove1 f (running s)\<rparr>))"
| "step (CancelRequest k) s = snd (cancelRequest k s)"
| "step (CancelInterruptSettled k io) s =
     (if k \<in> set (cancelling s)
      then snd (cancelRequest_resume k io (s\<lparr>cancelling := remove1 k (cancelling s)\<rparr>))
      else s)"
| "step (ResetRequest k) s = snd (resetRequest k s)"
| "step (ResetInterruptSettled k c io) s =
     (if (k, c) \<in> set (resetting s)
      then snd (resetRequest_resume k c io (s\<lparr>resetting := remove1 (k, c) (resetting s)\<rparr>))
      else s)"
| "step (ClearQueue k) s = snd (clearQueue k s)"
| "step (SetAbortController k c) s = setAbortController k c s"
| "step (ClearAbortController k) s = clearAbortController k s"
| "step (SetActiveQuery k q) s = setActiveQuery k q s"
| "step (ClearActiveQuery k) s = clearActiveQuery k s"
| "step (ClearCancelled k) s = clearCancelled k s"

fun run :: "event list \<Rightarrow> state \<Rightarrow> state" where
  "run [] s = s"
| "run (e # es) s = run es (step e s)"

text \<open>
  A run in which a cooperative handle or a cancellation signal is registered for a key
  only while a call for that key is executing, as an operation does that registers its
  own handle.
\<close>

fun registers_in_flight :: "event \<Rightarrow> state \<Rightarrow> bool" where
  "registers_in_flight (SetAbortController k c) s = isProcessing k s"
| "registers_in_flight (SetActiveQuery k q) s = isProcessing k s"
| "registers_in_flight e s = True"

fun disciplined :: "event list \<Rightarrow> state \<Rightarrow> bool" where
  "disciplined [] s = True"
| "disciplined (e # es) s = (registers_in_flight e s \<and> disciplined es (step e s))"

text \<open>The promises enqueued for a key, those whose handler was called, and those waiting.\<close>

fun enqueued :: "key \<Rightarrow> action list \<Rightarrow> nat list" where
  "enqueued k [] = []"
| "enqueued k (Enqueued k' p # as) = (if k' = k then p # enqueued k as else enqueued k as)"
| "enqueued k (a # as) = enqueued k as"

fun started :: "key \<Rightarrow> action list \<Rightarrow> nat list" where
  "started k [] = []"
| "started k (HandlerCalled k' p h # as) = (if k' = k then p # started k as else started k as)"
| "started k (a # as) = started k as"

definition waiting :: "key \<Rightarrow> state \<Rightarrow> nat list" where
  "waiting k s = map promise (case pendingQueues s k of None \<Rightarrow> [] | Some q \<Rightarrow> q)"

text \<open>The suspended \<open>processQueue\<close> calls of a key: the calls of that key now executing.\<close>

definition executing :: "key \<Rightarrow> state \<Rightarrow> request list" where
  "executing k s = map snd (filter (\<lambda>f. fst f = k) (running s))"

subsection \<open>Invariants of the runs\<close>

text \<open>
  The calls of a key now executing are at most one, and the processing flag of the key is
  set exactly when there is one.
\<close>

definition serial :: "key \<Rightarrow> state \<Rightarrow> bool" where
  "serial k s = (length (executing k s) \<le> 1 \<and> isProcessing k s = (executing k s \<noteq> []))"

text \<open>
  The order of a key: the promises whose handler was called, followed by those that wait,
  are a subsequence of the promises enqueued; the promises enqueued are pairwise different
  and were all created already.
\<close>

definition fifo :: "key \<Rightarrow> state \<Rightarrow> bool" where
  "fifo k s = (subseq (started k (trace s) @ waiting k s) (enqueued k (trace s))
     \<and> distinct (enqueued k (trace s))
     \<and> (\<forall>p \<in> set (enqueued k (trace s)). p < nextPromise s))"

text \<open>
  The order of a key while its queue is never cleared: called and waiting promises are
  the enqueued ones.
\<close>

definition exact_fifo :: "key \<Rightarrow> state \<Rightarrow> bool" where
  "exact_fifo k s = (started k (trace s) @ waiting k s = enqueued k (trace s))"

text \<open>
  The handler of every executing call was called.
\<close>

definition called :: "key \<Rightarrow> state \<Rightarrow> bool" where
  "called k s = (set (map promise (executing k s)) \<subseteq> set (started k (trace s)))"

text \<open>
  A key with no call executing has no query, no abort controller and no cancelled mark.
\<close>

definition idle_clean :: "key \<Rightarrow> state \<Rightarrow> bool" where
  "idle_clean k s = (isProcessing k s \<or>
     (activeQueries s k = None \<and> activeAbortControllers s k = None \<and> k \<notin> cancelledChats s))"

subsection \<open>Example runs\<close>

text \<open>
  One call of key \<open>a\<close> executing and two waiting; a call executing that registered a
  query and an abort controller, or an abort controller only; the same after
  \<open>cancelRequest\<close>; a key whose only call has settled; two keys with one call executing
  and one waiting each.
\<close>

definition one_running_two_waiting :: state where
  "one_running_two_waiting =
     run [QueueRequest ''a'' ''m1'' 11, QueueRequest ''a'' ''m2'' 12, QueueRequest ''a'' ''m3'' 13] init"

definition registered_both :: state where
  "registered_both =
     run [QueueRequest ''a'' ''m1'' 11, SetActiveQuery ''a'' 5, SetAbortController ''a'' 7] init"

definition registered_signal :: state where
  "registered_signal = run [QueueRequest ''a'' ''m1'' 11, SetAbortController ''a'' 7] init"

definition cancel_requested :: state where
  "cancel_requested = run [CancelRequest ''a''] registered_both"

definition settled_idle :: state where
  "settled_idle =
     run [QueueRequest ''a'' ''m1'' 11, SetActiveQuery ''a'' 5, HandlerSettled 0 (Fulfilled JNull)] init"

definition two_keys_busy :: state where
  "two_keys_busy =
     run [QueueRequest ''a'' ''m1'' 11, QueueRequest ''a'' ''m2'' 12,
          QueueRequest ''b'' ''m3'' 13, QueueRequest ''b'' ''m4'' 14] init"

section \<open>Properties of the bounded recency cache\<close>

lemma keys_jsmap_delete: "map fst (jsmap_delete m k) = removeAll k (map fst m)"
  by (induction m) (auto simp: jsmap_delete_def)

lemma keys_jsmap_set_absent:
  "\<not> jsmap_has m k \<Longrightarrow> map fst (jsmap_set m k v) = map fst m @ [k]"
  by (simp add: jsmap_set_def)

lemma jsmap_has_delete: "\<not> jsmap_has (jsmap_delete m k) k"
  by (simp add: jsmap_has_def keys_jsmap_delete)

lemma bm_keys_set_present:
  "bm_has b k \<Longrightarrow> bm_keys (bm_set b k v) = removeAll k (bm_keys b) @ [k]"
  by (simp add: bm_has_def bm_keys_def bm_set_def keys_jsmap_set_absent jsmap_has_delete keys_jsmap_delete)

lemma jsmap_has_delete_other: "\<not> jsmap_has m k \<Longrightarrow> \<not> jsmap_has (jsmap_delete m k') k"
  by (simp add: jsmap_has_def keys_jsmap_delete)

lemma bm_keys_set_evict:
  assumes "\<not> bm_has b k" "bm_maxSize b \<le> int (bm_size b)" "jsmap_first_key (bm_map b) \<noteq> Undefined"
  shows "bm_keys (bm_set b k v) = removeAll (jsmap_first_key (bm_map b)) (bm_keys b) @ [k]"
  using assms
  by (simp add: bm_has_def bm_keys_def bm_set_def bm_size_def Let_def
      keys_jsmap_set_absent jsmap_has_delete_other keys_jsmap_delete)

lemma bm_keys_set_room:
  "\<not> bm_has b k \<Longrightarrow> int (bm_size b) < bm_maxSize b \<Longrightarrow> bm_keys (bm_set b k v) = bm_keys b @ [k]"
  by (simp add: bm_has_def bm_keys_def bm_set_def bm_size_def keys_jsmap_set_absent)

lemma bm_maxSize_set [simp]: "bm_maxSize (bm_set b k v) = bm_maxSize b"
  by (simp add: bm_set_def Let_def)

lemma bm_size_keys: "bm_size b = length (bm_keys b)"
  by (simp add: bm_size_def bm_keys_def)

lemma distinct_removeAll_hd: "distinct xs \<Longrightarrow> xs \<noteq> [] \<Longrightarrow> removeAll (hd xs) xs = tl xs"
  by (cases xs) auto

lemma length_removeAll_distinct: "distinct xs \<Longrightarrow> x \<in> set xs \<Longrightarrow> Suc (length (removeAll x xs)) = length xs"
  by (induction xs) auto

lemma bm_inv_set:
  assumes "bm_inv b" "1 \<le> bm_maxSize b" "k \<noteq> Undefined"
  shows "bm_inv (bm_set b k v)"
proof (cases "bm_has b k")
  case True
  then have "k \<in> set (bm_keys b)" by (simp add: bm_has_def bm_keys_def jsmap_has_def)
  with assms True show ?thesis
    using length_removeAll_distinct[of "bm_keys b" k]
    by (auto simp: bm_inv_def bm_keys_set_present bm_size_keys distinct_removeAll)
next
  case False
  then have nk: "k \<notin> set (bm_keys b)" by (simp add: bm_has_def bm_keys_def jsmap_has_def)
  show ?thesis
  proof (cases "int (bm_size b) < bm_maxSize b")
    case True
    with assms False nk show ?thesis
      by (auto simp: bm_inv_def bm_keys_set_room bm_size_keys)
  next
    case full: False
    with assms have ne: "bm_keys b \<noteq> []" by (auto simp: bm_size_keys bm_inv_def)
    then have fk: "jsmap_first_key (bm_map b) = hd (bm_keys b)"
      by (cases "bm_map b") (auto simp: jsmap_first_key_def bm_keys_def)
    from ne assms have "hd (bm_keys b) \<noteq> Undefined"
      by (cases "bm_keys b") (auto simp: bm_inv_def)
    with fk have "jsmap_first_key (bm_map b) \<noteq> Undefined" by simp
    with False full fk have "bm_keys (bm_set b k v) = removeAll (hd (bm_keys b)) (bm_keys b) @ [k]"
      using bm_keys_set_evict[of b k v] by auto
    with assms ne have ks: "bm_keys (bm_set b k v) = tl (bm_keys b) @ [k]"
      by (simp add: distinct_removeAll_hd bm_inv_def)
    from assms nk ne show ?thesis
      unfolding bm_inv_def ks bm_size_keys
      by (cases "bm_keys b") (auto)
  qed
qed


lemma bm_run_snoc: "bm_run (ops @ [x]) b = bm_apply x (bm_run ops b)"
  by (induction ops arbitrary: b) auto

lemma set_keys_snoc: "set (set_keys (ops @ [x])) = set (set_keys ops) \<union> set (set_keys [x])"
  by (induction ops rule: set_keys.induct) auto

lemma bm_maxSize_run [simp]: "bm_maxSize (bm_run ops b) = bm_maxSize b"
proof (induction ops arbitrary: b)
  case (Cons x xs)
  then show ?case by (cases x) (simp_all add: bm_delete_def bm_clear_def)
qed simp

lemma bm_inv_delete:
  assumes "bm_inv b"
  shows "bm_inv (snd (bm_delete b k))"
proof -
  have k: "bm_keys (snd (bm_delete b k)) = removeAll k (bm_keys b)"
    by (simp add: bm_delete_def bm_keys_def keys_jsmap_delete)
  have "length (removeAll k (bm_keys b)) \<le> length (bm_keys b)"
    by (simp add: removeAll_filter_not_eq)
  moreover have "int (length (bm_keys b)) \<le> bm_maxSize b"
    using assms by (simp add: bm_inv_def bm_size_keys)
  ultimately have "int (length (removeAll k (bm_keys b))) \<le> bm_maxSize b"
    by linarith
  moreover have "bm_maxSize (snd (bm_delete b k)) = bm_maxSize b"
    by (simp add: bm_delete_def)
  ultimately show ?thesis
    using assms unfolding bm_inv_def k bm_size_keys
    by (simp add: distinct_removeAll)
qed

lemma bm_inv_run:
  assumes "1 \<le> n" "Undefined \<notin> set (set_keys ops)"
  shows "bm_inv (bm_run ops (bm_new n :: ('k, 'v) BoundedMap))"
  using assms(2)
proof (induction ops rule: rev_induct)
  case Nil
  from assms(1) show ?case by (simp add: bm_inv_def bm_new_def bm_keys_def bm_size_def)
next
  case (snoc x xs)
  let ?b = "bm_run xs (bm_new n :: ('k, 'v) BoundedMap)"
  from snoc have inv: "bm_inv ?b" and x: "Undefined \<notin> set (set_keys [x])"
    by (simp_all add: set_keys_snoc)
  have m: "bm_maxSize ?b = n" by (simp add: bm_new_def)
  show ?case
  proof (cases x)
    case (OpSet k v)
    with x have "k \<noteq> Undefined" by auto
    with inv assms(1) m OpSet show ?thesis by (simp add: bm_run_snoc bm_inv_set)
  next
    case (OpGet k)
    with inv show ?thesis by (simp add: bm_run_snoc)
  next
    case (OpDelete k)
    with inv show ?thesis by (simp add: bm_run_snoc bm_inv_delete)
  next
    case OpClear
    with assms(1) m show ?thesis
      by (simp add: bm_run_snoc bm_inv_def bm_clear_def bm_keys_def bm_size_def)
  qed
qed

lemma age_snoc: "age (ops @ [x]) k = (if is_set_of k x then 0 else Suc (age ops k))"
  by (simp add: age_def)

lemma bm_keys_set_shape:
  "\<exists>P. bm_keys (bm_set b k v) = filter P (bm_keys b) @ [k] \<and> k \<notin> set (filter P (bm_keys b))"
proof (cases "bm_has b k")
  case True
  then show ?thesis
    by (intro exI[of _ "\<lambda>x. k \<noteq> x"]) (simp add: bm_keys_set_present removeAll_filter_not_eq)
next
  case False
  then have nk: "k \<notin> set (bm_keys b)" by (simp add: bm_has_def bm_keys_def jsmap_has_def)
  show ?thesis
  proof (cases "bm_maxSize b \<le> int (bm_size b) \<and> jsmap_first_key (bm_map b) \<noteq> Undefined")
    case True
    with False nk show ?thesis
      by (intro exI[of _ "\<lambda>x. jsmap_first_key (bm_map b) \<noteq> x"])
         (simp add: bm_keys_set_evict removeAll_filter_not_eq)
  next
    case False
    with \<open>\<not> bm_has b k\<close> have "bm_keys (bm_set b k v) = bm_keys b @ [k]"
      by (auto simp add: bm_has_def bm_keys_def bm_set_def bm_size_def keys_jsmap_set_absent Let_def)
    with nk show ?thesis by (intro exI[of _ "\<lambda>x. True"]) simp
  qed
qed

lemma sorted_wrt_age_step:
  assumes "sorted_wrt (\<lambda>a c. age ops c < age ops a) ks" "\<forall>k\<in>set ks. \<not> is_set_of k x"
  shows "sorted_wrt (\<lambda>a c. age (ops @ [x]) c < age (ops @ [x]) a) ks"
  using assms by (induction ks) (auto simp: age_snoc)

lemma keys_by_age:
  "sorted_wrt (\<lambda>a c. age ops c < age ops a) (bm_keys (bm_run ops (bm_new n :: ('k, 'v) BoundedMap)))"
proof (induction ops rule: rev_induct)
  case Nil
  show ?case by (simp add: bm_new_def bm_keys_def)
next
  case (snoc x xs)
  let ?b = "bm_run xs (bm_new n :: ('k, 'v) BoundedMap)"
  show ?case
  proof (cases x)
    case (OpSet k v)
    obtain P where P: "bm_keys (bm_set ?b k v) = filter P (bm_keys ?b) @ [k]"
      "k \<notin> set (filter P (bm_keys ?b))"
      using bm_keys_set_shape[of ?b k v] by blast
    have "sorted_wrt (\<lambda>a c. age xs c < age xs a) (filter P (bm_keys ?b))"
      using snoc by (rule sorted_wrt_filter)
    moreover from P(2) OpSet have "\<forall>k'\<in>set (filter P (bm_keys ?b)). \<not> is_set_of k' x" by auto
    ultimately have "sorted_wrt (\<lambda>a c. age (xs @ [x]) c < age (xs @ [x]) a) (filter P (bm_keys ?b))"
      by (rule sorted_wrt_age_step)
    moreover have "\<forall>k'\<in>set (filter P (bm_keys ?b)). age (xs @ [x]) k < age (xs @ [x]) k'"
      using P(2) OpSet by (auto simp: age_snoc)
    ultimately show ?thesis
      using OpSet P(1) by (simp add: bm_run_snoc sorted_wrt_append)
  next
    case (OpGet k)
    with snoc show ?thesis by (simp add: bm_run_snoc sorted_wrt_age_step)
  next
    case (OpDelete k)
    have "sorted_wrt (\<lambda>a c. age xs c < age xs a) (filter (\<lambda>y. k \<noteq> y) (bm_keys ?b))"
      using snoc by (rule sorted_wrt_filter)
    with OpDelete show ?thesis
      by (simp add: bm_run_snoc bm_delete_def bm_keys_def keys_jsmap_delete
          removeAll_filter_not_eq sorted_wrt_age_step)
  next
    case OpClear
    then show ?thesis by (simp add: bm_run_snoc bm_clear_def bm_keys_def)
  qed
qed


lemma map_of_jsmap_delete:
  "map_of (jsmap_delete m k) k' = (if k' = k then None else map_of m k')"
  by (induction m) (auto simp: jsmap_delete_def)

lemma bm_get_set_present:
  "bm_has b k \<Longrightarrow> bm_get (bm_set b k v) k' = (if k' = k then Some v else bm_get b k')"
  by (auto simp add: bm_has_def bm_get_def bm_set_def jsmap_get_def jsmap_set_def jsmap_has_delete
      map_of_jsmap_delete map_add_def split: option.splits)

lemmas bm_eval = bm_new_def bm_set_def bm_delete_def bm_clear_def bm_size_def bm_keys_def
  bm_has_def bm_get_def jsmap_has_def jsmap_get_def jsmap_delete_def jsmap_set_def
  jsmap_first_key_def Let_def

text \<open>
  Claim C9, as amended. For a capacity \<open>n \<ge> 1\<close> and a cache \<open>b\<close> reached from the empty cache
  by any sequence of \<open>set\<close>, \<open>get\<close>, \<open>delete\<close> and \<open>clear\<close> calls whose \<open>set\<close> keys are
  not \<open>undefined\<close>: \<open>b\<close> holds at most \<open>n\<close> entries; setting a new key at full capacity
  removes exactly the first key in iteration order and appends the new key, the size staying
  \<open>n\<close>; re-setting a present key moves it to the last position, changes neither the size nor
  the set of keys, and changes the value of that key only; and the keys are iterated from the
  least recently set to the most recently set, so the first key is the oldest-inserted key
  that was not re-set since.
\<close>

theorem bounded_map_capacity:
  assumes "1 \<le> n" and "Undefined \<notin> set (set_keys ops)" and "b = bm_run ops (bm_new n)"
  shows "int (bm_size b) \<le> n
    \<and> (\<forall>k v. \<not> bm_has b k \<and> int (bm_size b) = n \<longrightarrow>
          bm_keys (bm_set b k v) = tl (bm_keys b) @ [k]
          \<and> hd (bm_keys b) \<notin> set (bm_keys (bm_set b k v))
          \<and> bm_size (bm_set b k v) = bm_size b)
    \<and> (\<forall>k v. bm_has b k \<longrightarrow>
          bm_keys (bm_set b k v) = removeAll k (bm_keys b) @ [k]
          \<and> bm_size (bm_set b k v) = bm_size b
          \<and> set (bm_keys (bm_set b k v)) = set (bm_keys b)
          \<and> (\<forall>k'. bm_get (bm_set b k v) k' = (if k' = k then Some v else bm_get b k')))
    \<and> sorted_wrt (\<lambda>a c. age ops c < age ops a) (bm_keys b)"
proof -
  have inv: "bm_inv b"
    unfolding assms(3) using assms(1,2) by (rule bm_inv_run)
  have m: "bm_maxSize b = n"
    unfolding assms(3) by (simp add: bm_new_def)
  have bound: "int (bm_size b) \<le> n"
    using inv m by (simp add: bm_inv_def)
  have evict: "bm_keys (bm_set b k v) = tl (bm_keys b) @ [k]
      \<and> hd (bm_keys b) \<notin> set (bm_keys (bm_set b k v))
      \<and> bm_size (bm_set b k v) = bm_size b"
    if h: "\<not> bm_has b k \<and> int (bm_size b) = n" for k v
  proof -
    from h assms(1) have ne: "bm_keys b \<noteq> []" by (auto simp: bm_size_keys)
    then obtain k0 ks where ks: "bm_keys b = k0 # ks" by (cases "bm_keys b") auto
    then have fk: "jsmap_first_key (bm_map b) = k0"
      by (cases "bm_map b") (auto simp: jsmap_first_key_def bm_keys_def)
    from inv ks have k0: "k0 \<noteq> Undefined" "k0 \<notin> set ks" by (auto simp: bm_inv_def)
    from h have nk: "k \<notin> set (bm_keys b)" by (simp add: bm_has_def bm_keys_def jsmap_has_def)
    have "bm_keys (bm_set b k v) = removeAll k0 (bm_keys b) @ [k]"
      using bm_keys_set_evict[of b k v] h m fk k0 by simp
    with ks k0 have eq: "bm_keys (bm_set b k v) = ks @ [k]" by simp
    with ks k0 nk show ?thesis by (auto simp: bm_size_keys)
  qed
  have reset: "bm_keys (bm_set b k v) = removeAll k (bm_keys b) @ [k]
      \<and> bm_size (bm_set b k v) = bm_size b
      \<and> set (bm_keys (bm_set b k v)) = set (bm_keys b)
      \<and> (\<forall>k'. bm_get (bm_set b k v) k' = (if k' = k then Some v else bm_get b k'))"
    if h: "bm_has b k" for k v
  proof -
    from h have kin: "k \<in> set (bm_keys b)" by (simp add: bm_has_def bm_keys_def jsmap_has_def)
    have eq: "bm_keys (bm_set b k v) = removeAll k (bm_keys b) @ [k]"
      using h by (rule bm_keys_set_present)
    have "Suc (length (removeAll k (bm_keys b))) = length (bm_keys b)"
      using inv kin by (simp add: length_removeAll_distinct bm_inv_def)
    with eq kin h show ?thesis
      by (auto simp: bm_size_keys bm_get_set_present)
  qed
  have "sorted_wrt (\<lambda>a c. age ops c < age ops a) (bm_keys b)"
    unfolding assms(3) by (rule keys_by_age)
  with bound evict reset show ?thesis by blast
qed

theorem bounded_map_capacity_witness:
  "(1::int) \<le> 2 \<and> Undefined \<notin> set (set_keys [OpSet (Key (1::nat)) (10::nat), OpSet (Key 2) 20, OpGet (Key 1), OpSet (Key 1) 11])
   \<and> bm_keys (bm_run [OpSet (Key (1::nat)) (10::nat), OpSet (Key 2) 20, OpGet (Key 1), OpSet (Key 1) 11] (bm_new 2)) = [Key 2, Key 1]
   \<and> \<not> bm_has (bm_run [OpSet (Key (1::nat)) (10::nat), OpSet (Key 2) 20, OpGet (Key 1), OpSet (Key 1) 11] (bm_new 2)) (Key 3)
   \<and> bm_keys (bm_set (bm_run [OpSet (Key (1::nat)) (10::nat), OpSet (Key 2) 20, OpGet (Key 1), OpSet (Key 1) 11] (bm_new 2)) (Key 3) 30) = [Key 1, Key 3]
   \<and> bm_has (bm_run [OpSet (Key (1::nat)) (10::nat), OpSet (Key 2) 20, OpGet (Key 1), OpSet (Key 1) 11] (bm_new 2)) (Key 2)
   \<and> bm_keys (bm_set (bm_run [OpSet (Key (1::nat)) (10::nat), OpSet (Key 2) 20, OpGet (Key 1), OpSet (Key 1) 11] (bm_new 2)) (Key 2) 21) = [Key 1, Key 2]"
proof -
  let ?ops = "[OpSet (Key (1::nat)) (10::nat), OpSet (Key 2) 20, OpGet (Key 1), OpSet (Key 1) 11]"
  let ?b = "bm_run ?ops (bm_new 2)"
  have h1: "(1::int) \<le> 2" by simp
  have h2: "Undefined \<notin> set (set_keys ?ops)" by simp
  note T = bounded_map_capacity[OF h1 h2 refl]
  have ks: "bm_keys ?b = [Key 2, Key 1]" by (simp add: bm_eval)
  have a: "\<not> bm_has ?b (Key 3) \<and> int (bm_size ?b) = 2" by (simp add: bm_eval)
  have c: "bm_has ?b (Key 2)" by (simp add: bm_eval)
  from T a have "bm_keys (bm_set ?b (Key 3) 30) = tl (bm_keys ?b) @ [Key 3]" by blast
  moreover from T c have "bm_keys (bm_set ?b (Key 2) 21) = removeAll (Key 2) (bm_keys ?b) @ [Key 2]" by blast
  ultimately show ?thesis using h1 h2 a c unfolding ks by simp
qed

text \<open>
  Claim C9 as stated fails for the capacity \<open>0\<close>: \<open>set\<close> on the empty cache finds no oldest
  key to evict and inserts, so a cache of capacity \<open>0\<close> holds one entry.
\<close>

theorem bounded_map_capacity_counterexample:
  "\<not> int (bm_size (bm_run [OpSet (Key (1::nat)) (10::nat)] (bm_new 0))) \<le> 0"
  by (simp add: bm_eval)

section \<open>Properties of the execution queue and the cancellation registry\<close>

subsection \<open>The single operations\<close>

lemmas reg_defs = emit_def setAbortController_def clearAbortController_def setActiveQuery_def
  clearActiveQuery_def clearCancelled_def isCancelled_def isProcessing_def getQueuePosition_def

lemmas queue_eval = init_def queueRequest_def processQueue_def processQueue_resume_def
  cleanup_def deliver_def rejection_def cancelRequest_def cancelRequest_resume_def resetRequest_def
  resetRequest_resume_def clearQueue_def reg_defs waiting_def executing_def Let_def

lemma reject_each_eq:
  "reject_each rs s =
     s\<lparr>trace := trace s @ map (\<lambda>r. Rejected (promise r) (JError ''Queue cleared'')) rs\<rparr>"
  by (induction rs arbitrary: s) (simp_all add: emit_def)

lemma clearQueue_effect:
  "fst (clearQueue k s) = getQueuePosition k s
   \<and> trace (snd (clearQueue k s)) =
       trace s @ map (\<lambda>p. Rejected p (JError ''Queue cleared'')) (waiting k s)
   \<and> waiting k (snd (clearQueue k s)) = []
   \<and> getQueuePosition k (snd (clearQueue k s)) = 0
   \<and> running (snd (clearQueue k s)) = running s
   \<and> processingFlags (snd (clearQueue k s)) = processingFlags s
   \<and> activeQueries (snd (clearQueue k s)) = activeQueries s
   \<and> activeAbortControllers (snd (clearQueue k s)) = activeAbortControllers s
   \<and> cancelledChats (snd (clearQueue k s)) = cancelledChats s
   \<and> processQueue_resume k r out (snd (clearQueue k s)) =
       cleanup k (deliver r out (snd (clearQueue k s)))
   \<and> trace (processQueue_resume k r (Fulfilled v) (snd (clearQueue k s))) =
       trace (snd (clearQueue k s)) @ [Resolved (promise r) v]"
  by (cases "pendingQueues s k"; cases out)
     (simp_all add: clearQueue_def getQueuePosition_def waiting_def reject_each_eq
       processQueue_resume_def cleanup_def deliver_def reg_defs comp_def split: option.splits)

lemma settle_cleanup_facts:
  "processingFlags (cleanup k (deliver r out s)) k = Some False
   \<and> activeQueries (cleanup k (deliver r out s)) k = None
   \<and> activeAbortControllers (cleanup k (deliver r out s)) k = None
   \<and> \<not> isCancelled k (cleanup k (deliver r out s))"
  by (cases out) (simp_all add: cleanup_def deliver_def reg_defs split: option.splits)

lemma settle_resume_eq:
  "processQueue_resume k r out s =
       (if 0 < getQueuePosition k s then processQueue k (cleanup k (deliver r out s))
        else cleanup k (deliver r out s))"
  by (cases "pendingQueues s k"; cases out; cases "the (pendingQueues s k)")
     (simp_all add: processQueue_resume_def processQueue_def cleanup_def deliver_def reg_defs split: option.splits)

lemma settle_resume_facts:
  "activeQueries (processQueue_resume k r out s) k = None
   \<and> activeAbortControllers (processQueue_resume k r out s) k = None
   \<and> \<not> isCancelled k (processQueue_resume k r out s)
   \<and> isProcessing k (processQueue_resume k r out s) = (0 < getQueuePosition k s)"
  by (cases "pendingQueues s k"; cases out; cases "the (pendingQueues s k)")
     (simp_all add: processQueue_resume_def processQueue_def cleanup_def deliver_def reg_defs split: option.splits)

lemma enqueued_append: "enqueued k (xs @ ys) = enqueued k xs @ enqueued k ys"
  by (induction k xs rule: enqueued.induct) simp_all

lemma started_append: "started k (xs @ ys) = started k xs @ started k ys"
  by (induction k xs rule: started.induct) simp_all

lemma started_rejections: "started k (map (\<lambda>r. Rejected (f r) e) rs) = []"
  by (induction rs) simp_all

lemma enqueued_rejections: "enqueued k (map (\<lambda>r. Rejected (f r) e) rs) = []"
  by (induction rs) simp_all

lemma subseq_in_set: "subseq xs ys \<Longrightarrow> x \<in> set xs \<Longrightarrow> x \<in> set ys"
  by (induction rule: list_emb.induct) auto

lemma subseq_distinct: "subseq xs ys \<Longrightarrow> distinct ys \<Longrightarrow> distinct xs"
  by (induction rule: list_emb.induct) (auto dest: subseq_in_set)

subsection \<open>At most one executing call per key\<close>

lemma executing_remove1_same:
  assumes "f \<in> set (running s)" "fst f = k" "length (executing k s) \<le> 1"
  shows "executing k (s\<lparr>running := remove1 f (running s)\<rparr>) = []"
proof -
  let ?P = "\<lambda>f. fst f = k"
  from assms(1,2) have "f \<in> set (filter ?P (running s))" by simp
  moreover from assms(3) have "length (filter ?P (running s)) \<le> 1" by (simp add: executing_def)
  ultimately have "filter ?P (running s) = [f]"
    by (cases "filter ?P (running s)") auto
  then have "filter ?P (remove1 f (running s)) = []"
    by (simp add: filter_remove1)
  then show ?thesis by (simp add: executing_def)
qed

lemma executing_remove1_other:
  "fst f \<noteq> k \<Longrightarrow> executing k (s\<lparr>running := remove1 f (running s)\<rparr>) = executing k s"
  by (simp add: executing_def filter_remove1 remove1_idem)

lemma serial_processQueue: "serial k s \<Longrightarrow> serial k (processQueue k' s)"
  by (auto simp: serial_def processQueue_def executing_def reg_defs split: option.splits list.splits)

lemma serial_cleanup_other:
  "k' \<noteq> k \<Longrightarrow> serial k (cleanup k' (deliver r out s)) = serial k s"
  by (cases out) (simp_all add: serial_def cleanup_def deliver_def executing_def reg_defs split: option.splits)

lemma serial_cleanup_same:
  "executing k s = [] \<Longrightarrow> serial k (cleanup k (deliver r out s))"
  by (cases out) (simp_all add: serial_def cleanup_def deliver_def executing_def reg_defs split: option.splits)

lemma serial_resume_other:
  "k' \<noteq> k \<Longrightarrow> serial k s \<Longrightarrow> serial k (processQueue_resume k' r out s)"
  by (simp add: processQueue_resume_def Let_def serial_processQueue serial_cleanup_other
      split: option.splits list.splits)

lemma serial_resume_same:
  "executing k s = [] \<Longrightarrow> serial k (processQueue_resume k r out s)"
  by (simp add: processQueue_resume_def Let_def serial_processQueue serial_cleanup_same
      split: option.splits list.splits)

lemma serial_step: "serial k s \<Longrightarrow> serial k (step e s)"
proof (cases e)
  case (QueueRequest k' msg h)
  assume "serial k s"
  then have "serial k (emit (Enqueued k' (nextPromise s))
      (s\<lparr>nextPromise := Suc (nextPromise s),
          pendingQueues := (pendingQueues s)(k' \<mapsto>
            (case pendingQueues s k' of None \<Rightarrow> [] | Some q \<Rightarrow> q)
              @ [\<lparr>message = msg, handler = h, promise = nextPromise s\<rparr>])\<rparr>))"
    by (simp add: serial_def executing_def reg_defs)
  then show ?thesis
    using QueueRequest by (simp add: queueRequest_def Let_def serial_processQueue)
next
  case (HandlerSettled p out)
  assume a: "serial k s"
  show ?thesis
  proof (cases "find (\<lambda>f. promise (snd f) = p) (running s)")
    case None
    with a HandlerSettled show ?thesis by simp
  next
    case (Some f)
    then have fin: "f \<in> set (running s)" by (auto simp: find_Some_iff)
    let ?s = "s\<lparr>running := remove1 f (running s)\<rparr>"
    show ?thesis
    proof (cases "fst f = k")
      case True
      with fin a have "executing k ?s = []"
        by (intro executing_remove1_same) (auto simp: serial_def)
      then have "serial k (processQueue_resume k (snd f) out ?s)" by (rule serial_resume_same)
      with True Some HandlerSettled show ?thesis by simp
    next
      case False
      then have "executing k ?s = executing k s" by (rule executing_remove1_other)
      with a have "serial k ?s" by (simp add: serial_def isProcessing_def)
      with False have "serial k (processQueue_resume (fst f) (snd f) out ?s)"
        by (intro serial_resume_other) auto
      with Some HandlerSettled show ?thesis by simp
    qed
  qed
next
  case (CancelRequest k')
  assume "serial k s"
  with CancelRequest show ?thesis
    by (auto simp: cancelRequest_def serial_def executing_def reg_defs Let_def split: option.splits)
next
  case (CancelInterruptSettled k' io)
  assume "serial k s"
  with CancelInterruptSettled show ?thesis
    by (cases io) (auto simp: cancelRequest_resume_def serial_def executing_def reg_defs Let_def)
next
  case (ResetRequest k')
  assume "serial k s"
  with ResetRequest show ?thesis
    by (auto simp: resetRequest_def serial_def executing_def reg_defs Let_def split: option.splits)
next
  case (ResetInterruptSettled k' c io)
  assume "serial k s"
  with ResetInterruptSettled show ?thesis
    by (cases io; cases c)
       (auto simp: resetRequest_resume_def serial_def executing_def reg_defs Let_def)
next
  case (ClearQueue k')
  assume "serial k s"
  with ClearQueue show ?thesis
    by (auto simp: clearQueue_def serial_def executing_def reg_defs reject_each_eq split: option.splits)
qed (auto simp: serial_def executing_def reg_defs)

lemma serial_run: "serial k s \<Longrightarrow> serial k (run es s)"
  by (induction es arbitrary: s) (simp_all add: serial_step)

lemma serial_init: "serial k init"
  by (simp add: serial_def executing_def init_def isProcessing_def)

subsection \<open>The order of the calls of a key\<close>

lemma processQueue_order:
  "started k (trace (processQueue k' s)) @ waiting k (processQueue k' s)
     = started k (trace s) @ waiting k s"
  "enqueued k (trace (processQueue k' s)) = enqueued k (trace s)"
  "nextPromise (processQueue k' s) = nextPromise s"
  by (auto simp: processQueue_def waiting_def emit_def started_append enqueued_append
      split: option.splits list.splits)

lemma settle_order:
  "started k (trace (cleanup k' (deliver r out s))) = started k (trace s)"
  "waiting k (cleanup k' (deliver r out s)) = waiting k s"
  "enqueued k (trace (cleanup k' (deliver r out s))) = enqueued k (trace s)"
  "nextPromise (cleanup k' (deliver r out s)) = nextPromise s"
  by (cases out; simp add: cleanup_def deliver_def waiting_def reg_defs started_append enqueued_append split: option.splits)+

lemma resume_order:
  "started k (trace (processQueue_resume k' r out s)) @ waiting k (processQueue_resume k' r out s)
     = started k (trace s) @ waiting k s"
  "enqueued k (trace (processQueue_resume k' r out s)) = enqueued k (trace s)"
  "nextPromise (processQueue_resume k' r out s) = nextPromise s"
  by (simp_all add: processQueue_resume_def Let_def processQueue_order settle_order
      split: option.splits list.splits)

lemma queueRequest_order:
  "started k (trace (snd (queueRequest k' msg h s))) @ waiting k (snd (queueRequest k' msg h s))
     = (started k (trace s) @ waiting k s) @ (if k' = k then [nextPromise s] else [])"
  "enqueued k (trace (snd (queueRequest k' msg h s)))
     = enqueued k (trace s) @ (if k' = k then [nextPromise s] else [])"
  "nextPromise (snd (queueRequest k' msg h s)) = Suc (nextPromise s)"
  unfolding queueRequest_def Let_def snd_conv processQueue_order
  by (simp_all add: waiting_def emit_def started_append enqueued_append split: option.splits)

lemma clearQueue_order:
  "started k (trace (snd (clearQueue k' s))) = started k (trace s)"
  "waiting k (snd (clearQueue k' s)) = (if k' = k then [] else waiting k s)"
  "enqueued k (trace (snd (clearQueue k' s))) = enqueued k (trace s)"
  "nextPromise (snd (clearQueue k' s)) = nextPromise s"
  by (simp_all add: clearQueue_def waiting_def reject_each_eq started_append enqueued_append
      started_rejections enqueued_rejections split: option.splits)

lemma registry_order:
  "started k (trace (snd (cancelRequest k' s))) = started k (trace s)"
  "waiting k (snd (cancelRequest k' s)) = waiting k s"
  "enqueued k (trace (snd (cancelRequest k' s))) = enqueued k (trace s)"
  "nextPromise (snd (cancelRequest k' s)) = nextPromise s"
  "started k (trace (snd (resetRequest k' s))) = started k (trace s)"
  "waiting k (snd (resetRequest k' s)) = waiting k s"
  "enqueued k (trace (snd (resetRequest k' s))) = enqueued k (trace s)"
  "nextPromise (snd (resetRequest k' s)) = nextPromise s"
  by (simp_all add: cancelRequest_def resetRequest_def waiting_def reg_defs Let_def
      started_append enqueued_append split: option.splits)

lemma registry_resume_order:
  "started k (trace (snd (cancelRequest_resume k' io s))) = started k (trace s)"
  "waiting k (snd (cancelRequest_resume k' io s)) = waiting k s"
  "enqueued k (trace (snd (cancelRequest_resume k' io s))) = enqueued k (trace s)"
  "nextPromise (snd (cancelRequest_resume k' io s)) = nextPromise s"
  "started k (trace (snd (resetRequest_resume k' c io s))) = started k (trace s)"
  "waiting k (snd (resetRequest_resume k' c io s)) = waiting k s"
  "enqueued k (trace (snd (resetRequest_resume k' c io s))) = enqueued k (trace s)"
  "nextPromise (snd (resetRequest_resume k' c io s)) = nextPromise s"
  by (cases io; cases c;
      simp add: cancelRequest_resume_def resetRequest_resume_def waiting_def reg_defs Let_def
      started_append enqueued_append)+

lemma frame_removed_order:
  "waiting k (s\<lparr>running := x\<rparr>) = waiting k s"
  "waiting k (s\<lparr>cancelling := y\<rparr>) = waiting k s"
  "waiting k (s\<lparr>resetting := z\<rparr>) = waiting k s"
  by (simp_all add: waiting_def)

text \<open>
  What one step does to the three lists of a key: \<open>ps\<close> is the promise the step enqueues
  for the key, if any.
\<close>

lemma step_order:
  "\<exists>ps. started k (trace (step e s)) @ waiting k (step e s) =
          (if e = ClearQueue k then started k (trace s) else (started k (trace s) @ waiting k s) @ ps)
        \<and> enqueued k (trace (step e s)) = enqueued k (trace s) @ ps
        \<and> (ps = [] \<or> ps = [nextPromise s])
        \<and> nextPromise s \<le> nextPromise (step e s)
        \<and> (ps \<noteq> [] \<longrightarrow> nextPromise s < nextPromise (step e s))"
proof (cases e)
  case (QueueRequest k' msg h)
  then show ?thesis
    by (intro exI[of _ "if k' = k then [nextPromise s] else []"]) (simp add: queueRequest_order)
next
  case (HandlerSettled p out)
  then show ?thesis
    by (intro exI[of _ "[]"])
       (simp add: resume_order frame_removed_order split: option.splits)
next
  case (ClearQueue k')
  then show ?thesis
    by (intro exI[of _ "[]"]) (simp add: clearQueue_order)
next
  case (CancelRequest k')
  then show ?thesis
    by (intro exI[of _ "[]"]) (simp add: registry_order)
next
  case (CancelInterruptSettled k' io)
  then show ?thesis
    by (intro exI[of _ "[]"]) (simp add: registry_resume_order frame_removed_order)
next
  case (ResetRequest k')
  then show ?thesis
    by (intro exI[of _ "[]"]) (simp add: registry_order)
next
  case (ResetInterruptSettled k' c io)
  then show ?thesis
    by (intro exI[of _ "[]"]) (simp add: registry_resume_order frame_removed_order)
next
  case (SetAbortController k' c)
  then show ?thesis
    by (intro exI[of _ "[]"]) (simp add: waiting_def reg_defs)
next
  case (ClearAbortController k')
  then show ?thesis
    by (intro exI[of _ "[]"]) (simp add: waiting_def reg_defs)
next
  case (SetActiveQuery k' q)
  then show ?thesis
    by (intro exI[of _ "[]"]) (simp add: waiting_def reg_defs)
next
  case (ClearActiveQuery k')
  then show ?thesis
    by (intro exI[of _ "[]"]) (simp add: waiting_def reg_defs)
next
  case (ClearCancelled k')
  then show ?thesis
    by (intro exI[of _ "[]"]) (simp add: waiting_def reg_defs)
qed

lemma fifo_step:
  assumes "fifo k s"
  shows "fifo k (step e s)"
proof -
  obtain ps where ps:
    "started k (trace (step e s)) @ waiting k (step e s) =
       (if e = ClearQueue k then started k (trace s) else (started k (trace s) @ waiting k s) @ ps)"
    "enqueued k (trace (step e s)) = enqueued k (trace s) @ ps"
    "ps = [] \<or> ps = [nextPromise s]"
    "nextPromise s \<le> nextPromise (step e s)"
    "ps \<noteq> [] \<longrightarrow> nextPromise s < nextPromise (step e s)"
    using step_order[of k e s] by blast
  from assms have sub: "subseq (started k (trace s) @ waiting k s) (enqueued k (trace s))"
    and dis: "distinct (enqueued k (trace s))"
    and bnd: "\<forall>p \<in> set (enqueued k (trace s)). p < nextPromise s"
    by (simp_all add: fifo_def)
  have "subseq (started k (trace s)) (started k (trace s) @ waiting k s)"
    by (rule prefix_imp_subseq) simp
  from this sub have sub0: "subseq (started k (trace s)) (enqueued k (trace s))"
    by (rule subseq_order.trans)
  have "subseq (started k (trace (step e s)) @ waiting k (step e s)) (enqueued k (trace (step e s)))"
  proof (cases "e = ClearQueue k")
    case True
    with ps(1,2) sub0 show ?thesis by auto
  next
    case False
    from sub have "subseq ((started k (trace s) @ waiting k s) @ ps) (enqueued k (trace s) @ ps)"
      by (simp only: subseq_append)
    with False ps(1,2) show ?thesis by simp
  qed
  moreover from ps(2,3) dis bnd have "distinct (enqueued k (trace (step e s)))"
    by auto
  moreover from ps(2,3,4,5) bnd have "\<forall>p \<in> set (enqueued k (trace (step e s))). p < nextPromise (step e s)"
    by (auto simp: less_le_trans)
  ultimately show ?thesis by (simp add: fifo_def)
qed

lemma fifo_run: "fifo k s \<Longrightarrow> fifo k (run es s)"
  by (induction es arbitrary: s) (simp_all add: fifo_step)

lemma fifo_init: "fifo k init"
  by (simp add: fifo_def init_def waiting_def)

lemma exact_fifo_step:
  assumes "exact_fifo k s" "e \<noteq> ClearQueue k"
  shows "exact_fifo k (step e s)"
  using step_order[of k e s] assms by (auto simp: exact_fifo_def)

lemma exact_fifo_run: "exact_fifo k s \<Longrightarrow> ClearQueue k \<notin> set es \<Longrightarrow> exact_fifo k (run es s)"
  by (induction es arbitrary: s) (auto simp: exact_fifo_step)

lemma exact_fifo_init: "exact_fifo k init"
  by (simp add: exact_fifo_def init_def waiting_def)

lemma called_processQueue: "called k s \<Longrightarrow> called k (processQueue k' s)"
  by (auto simp: called_def processQueue_def executing_def emit_def started_append
      split: option.splits list.splits)

lemma called_cleanup: "called k s \<Longrightarrow> called k (cleanup k' (deliver r out s))"
  by (cases out) (simp_all add: called_def cleanup_def deliver_def executing_def reg_defs started_append split: option.splits)

lemma called_resume: "called k s \<Longrightarrow> called k (processQueue_resume k' r out s)"
  by (simp add: processQueue_resume_def Let_def called_processQueue called_cleanup
      split: option.splits list.splits)

lemma called_remove1: "called k s \<Longrightarrow> called k (s\<lparr>running := remove1 f (running s)\<rparr>)"
proof -
  assume a: "called k s"
  have "set (filter (\<lambda>f. fst f = k) (remove1 f (running s))) \<subseteq> set (filter (\<lambda>f. fst f = k) (running s))"
    using set_remove1_subset[of f "running s"] by auto
  with a show ?thesis by (auto simp: called_def executing_def)
qed

lemma called_step: "called k s \<Longrightarrow> called k (step e s)"
proof (cases e)
  case (QueueRequest k' msg h)
  assume "called k s"
  then have "called k (emit (Enqueued k' (nextPromise s))
      (s\<lparr>nextPromise := Suc (nextPromise s),
          pendingQueues := (pendingQueues s)(k' \<mapsto>
            (case pendingQueues s k' of None \<Rightarrow> [] | Some q \<Rightarrow> q)
              @ [\<lparr>message = msg, handler = h, promise = nextPromise s\<rparr>])\<rparr>))"
    by (simp add: called_def executing_def reg_defs started_append)
  then show ?thesis
    using QueueRequest by (simp add: queueRequest_def Let_def called_processQueue)
next
  case (HandlerSettled p out)
  assume "called k s"
  with HandlerSettled show ?thesis
    by (simp add: called_resume called_remove1 split: option.splits)
next
  case (CancelRequest k')
  assume "called k s"
  with CancelRequest show ?thesis
    by (auto simp: cancelRequest_def called_def executing_def reg_defs Let_def started_append
        split: option.splits)
next
  case (CancelInterruptSettled k' io)
  assume "called k s"
  with CancelInterruptSettled show ?thesis
    by (cases io)
       (auto simp: cancelRequest_resume_def called_def executing_def reg_defs Let_def started_append)
next
  case (ResetRequest k')
  assume "called k s"
  with ResetRequest show ?thesis
    by (auto simp: resetRequest_def called_def executing_def reg_defs Let_def started_append
        split: option.splits)
next
  case (ResetInterruptSettled k' c io)
  assume "called k s"
  with ResetInterruptSettled show ?thesis
    by (cases io; cases c)
       (auto simp: resetRequest_resume_def called_def executing_def reg_defs Let_def started_append)
next
  case (ClearQueue k')
  assume "called k s"
  with ClearQueue show ?thesis
    by (auto simp: clearQueue_def called_def executing_def reject_each_eq started_append
        started_rejections split: option.splits)
qed (auto simp: called_def executing_def reg_defs)

lemma called_run: "called k s \<Longrightarrow> called k (run es s)"
  by (induction es arbitrary: s) (simp_all add: called_step)

lemma called_init: "called k init"
  by (simp add: called_def executing_def init_def)

lemma executing_not_waiting:
  assumes "s = run es init" "r \<in> set (executing k s)"
  shows "promise r \<notin> set (waiting k s)"
proof -
  have "fifo k s" unfolding assms(1) by (rule fifo_run[OF fifo_init])
  then have "subseq (started k (trace s) @ waiting k s) (enqueued k (trace s))"
    and "distinct (enqueued k (trace s))"
    by (simp_all add: fifo_def)
  then have "distinct (started k (trace s) @ waiting k s)"
    by (rule subseq_distinct)
  moreover have "called k s" unfolding assms(1) by (rule called_run[OF called_init])
  with assms(2) have "promise r \<in> set (started k (trace s))" by (auto simp: called_def)
  ultimately show ?thesis by auto
qed

lemma started_processQueue_busy:
  "isProcessing k s \<Longrightarrow> processQueue k s = s"
  by (simp add: processQueue_def isProcessing_def)

lemma started_processQueue_other:
  "k' \<noteq> k \<Longrightarrow> started k (trace (processQueue k' s)) = started k (trace s)"
  by (auto simp: processQueue_def emit_def started_append split: option.splits list.splits)

lemma started_resume_other:
  "k' \<noteq> k \<Longrightarrow> started k (trace (processQueue_resume k' r out s)) = started k (trace s)"
  by (simp add: processQueue_resume_def Let_def started_processQueue_other settle_order
      split: option.splits list.splits)

lemma started_queueRequest_busy:
  assumes "isProcessing k s"
  shows "started k (trace (snd (queueRequest k' msg h s))) = started k (trace s)"
proof (cases "k' = k")
  case True
  let ?s1 = "emit (Enqueued k (nextPromise s))
      (s\<lparr>nextPromise := Suc (nextPromise s),
          pendingQueues := (pendingQueues s)(k \<mapsto>
            (case pendingQueues s k of None \<Rightarrow> [] | Some q \<Rightarrow> q)
              @ [\<lparr>message = msg, handler = h, promise = nextPromise s\<rparr>])\<rparr>)"
  from assms have "isProcessing k ?s1" by (simp add: reg_defs)
  then have "processQueue k ?s1 = ?s1" by (rule started_processQueue_busy)
  with True show ?thesis
    by (simp add: queueRequest_def Let_def) (simp add: emit_def started_append)
next
  case False
  then show ?thesis
    by (simp add: queueRequest_def Let_def started_processQueue_other)
       (simp add: emit_def started_append)
qed

lemma started_step_settle_only:
  assumes "isProcessing k s" "started k (trace (step e s)) \<noteq> started k (trace s)"
  shows "\<exists>f out. e = HandlerSettled (promise (snd f)) out \<and> f \<in> set (running s) \<and> fst f = k
    \<and> step e s = processQueue k (cleanup k (deliver (snd f) out (s\<lparr>running := remove1 f (running s)\<rparr>)))"
proof (cases e)
  case (QueueRequest k' msg h)
  with assms show ?thesis by (simp add: started_queueRequest_busy)
next
  case (HandlerSettled p out)
  show ?thesis
  proof (cases "find (\<lambda>f. promise (snd f) = p) (running s)")
    case None
    with assms HandlerSettled show ?thesis by simp
  next
    case (Some f)
    then have fin: "f \<in> set (running s)" and fp: "promise (snd f) = p"
      by (auto simp: find_Some_iff)
    let ?s = "s\<lparr>running := remove1 f (running s)\<rparr>"
    have st: "step e s = processQueue_resume (fst f) (snd f) out ?s"
      using HandlerSettled Some by simp
    show ?thesis
    proof (cases "fst f = k")
      case True
      have "step e s = processQueue k (cleanup k (deliver (snd f) out ?s))"
      proof (rule ccontr)
        assume n: "step e s \<noteq> processQueue k (cleanup k (deliver (snd f) out ?s))"
        with st True have "step e s = cleanup k (deliver (snd f) out ?s)"
          by (auto simp: processQueue_resume_def Let_def split: option.splits list.splits)
        then have "started k (trace (step e s)) = started k (trace s)"
          by (simp add: settle_order)
        with assms(2) show False by simp
      qed
      with HandlerSettled fin fp True show ?thesis by blast
    next
      case False
      with st have "started k (trace (step e s)) = started k (trace s)"
        by (simp add: started_resume_other)
      with assms(2) show ?thesis by simp
    qed
  qed
next
  case (CancelRequest k')
  with assms show ?thesis by (simp add: registry_order)
next
  case (CancelInterruptSettled k' io)
  with assms show ?thesis by (simp add: registry_resume_order split: if_splits)
next
  case (ResetRequest k')
  with assms show ?thesis by (simp add: registry_order)
next
  case (ResetInterruptSettled k' c io)
  with assms show ?thesis by (simp add: registry_resume_order split: if_splits)
next
  case (ClearQueue k')
  with assms show ?thesis by (simp add: clearQueue_order)
next
  case (SetAbortController k' c)
  with assms show ?thesis by (simp add: reg_defs)
next
  case (ClearAbortController k')
  with assms show ?thesis by (simp add: reg_defs)
next
  case (SetActiveQuery k' q)
  with assms show ?thesis by (simp add: reg_defs)
next
  case (ClearActiveQuery k')
  with assms show ?thesis by (simp add: reg_defs)
next
  case (ClearCancelled k')
  with assms show ?thesis by (simp add: reg_defs)
qed

subsection \<open>An idle key holds no cancellation state\<close>

lemma idle_clean_processQueue: "idle_clean k s \<Longrightarrow> idle_clean k (processQueue k' s)"
  by (auto simp: idle_clean_def processQueue_def reg_defs split: option.splits list.splits)

lemma idle_clean_cleanup_same: "idle_clean k (cleanup k (deliver r out s))"
  by (cases out) (simp_all add: idle_clean_def cleanup_def deliver_def reg_defs split: option.splits)

lemma idle_clean_cleanup_other:
  "k' \<noteq> k \<Longrightarrow> idle_clean k s \<Longrightarrow> idle_clean k (cleanup k' (deliver r out s))"
  by (cases out) (auto simp add: idle_clean_def cleanup_def deliver_def reg_defs split: option.splits)

lemma idle_clean_resume:
  "idle_clean k s \<Longrightarrow> idle_clean k (processQueue_resume k' r out s)"
  by (cases "k' = k")
     (simp_all add: processQueue_resume_def Let_def idle_clean_processQueue
       idle_clean_cleanup_same idle_clean_cleanup_other split: option.splits list.splits)

lemma idle_clean_step:
  assumes "idle_clean k s" "registers_in_flight e s"
  shows "idle_clean k (step e s)"
proof (cases e)
  case (QueueRequest k' msg h)
  from assms(1) have "idle_clean k (emit (Enqueued k' (nextPromise s))
      (s\<lparr>nextPromise := Suc (nextPromise s),
          pendingQueues := (pendingQueues s)(k' \<mapsto>
            (case pendingQueues s k' of None \<Rightarrow> [] | Some q \<Rightarrow> q)
              @ [\<lparr>message = msg, handler = h, promise = nextPromise s\<rparr>])\<rparr>))"
    by (simp add: idle_clean_def reg_defs)
  then show ?thesis
    using QueueRequest by (simp add: queueRequest_def Let_def idle_clean_processQueue)
next
  case (HandlerSettled p out)
  have "idle_clean k (s\<lparr>running := x\<rparr>)" for x
    using assms(1) by (simp add: idle_clean_def reg_defs)
  then show ?thesis
    using HandlerSettled assms(1) by (simp add: idle_clean_resume split: option.splits)
next
  case (CancelRequest k')
  with assms show ?thesis
    by (auto simp: cancelRequest_def idle_clean_def reg_defs Let_def split: option.splits)
next
  case (CancelInterruptSettled k' io)
  with assms show ?thesis
    by (cases io) (auto simp: cancelRequest_resume_def idle_clean_def reg_defs Let_def)
next
  case (ResetRequest k')
  with assms show ?thesis
    by (auto simp: resetRequest_def idle_clean_def reg_defs Let_def split: option.splits)
next
  case (ResetInterruptSettled k' c io)
  with assms show ?thesis
    by (cases io; cases c)
       (auto simp: resetRequest_resume_def idle_clean_def reg_defs Let_def)
next
  case (ClearQueue k')
  with assms show ?thesis
    by (auto simp: clearQueue_def idle_clean_def reg_defs reject_each_eq split: option.splits)
next
  case (SetAbortController k' c)
  with assms show ?thesis by (auto simp: idle_clean_def reg_defs)
next
  case (ClearAbortController k')
  with assms show ?thesis by (auto simp: idle_clean_def reg_defs)
next
  case (SetActiveQuery k' q)
  with assms show ?thesis by (auto simp: idle_clean_def reg_defs)
next
  case (ClearActiveQuery k')
  with assms show ?thesis by (auto simp: idle_clean_def reg_defs)
next
  case (ClearCancelled k')
  with assms show ?thesis by (auto simp: idle_clean_def reg_defs)
qed

lemma idle_clean_run: "idle_clean k s \<Longrightarrow> disciplined es s \<Longrightarrow> idle_clean k (run es s)"
  by (induction es arbitrary: s) (simp_all add: idle_clean_step)

lemma idle_clean_init: "idle_clean k init"
  by (simp add: idle_clean_def init_def)

lemma run_replicate_fixed: "step e s = s \<Longrightarrow> run (replicate n e) s = s"
  by (induction n) simp_all



lemma registry_processQueue:
  "activeQueries (processQueue k' s) = activeQueries s"
  "activeAbortControllers (processQueue k' s) = activeAbortControllers s"
  "cancelledChats (processQueue k' s) = cancelledChats s"
  by (simp_all add: processQueue_def emit_def split: option.splits list.splits)

lemma registry_queueRequest:
  "activeQueries (snd (queueRequest k' msg h s)) = activeQueries s"
  "activeAbortControllers (snd (queueRequest k' msg h s)) = activeAbortControllers s"
  "cancelledChats (snd (queueRequest k' msg h s)) = cancelledChats s"
  by (simp_all add: queueRequest_def Let_def registry_processQueue emit_def)

lemma started_step_clean:
  assumes "idle_clean k s" "started k (trace (step e s)) \<noteq> started k (trace s)"
  shows "activeQueries (step e s) k = None \<and> activeAbortControllers (step e s) k = None
    \<and> \<not> isCancelled k (step e s)"
proof (cases e)
  case (QueueRequest k' msg h)
  with assms(2) have "\<not> isProcessing k s" using started_queueRequest_busy[of k s k' msg h] by auto
  with assms(1) have "activeQueries s k = None \<and> activeAbortControllers s k = None \<and> k \<notin> cancelledChats s"
    by (simp add: idle_clean_def)
  with QueueRequest show ?thesis by (simp add: registry_queueRequest isCancelled_def)
next
  case (HandlerSettled p out)
  show ?thesis
  proof (cases "find (\<lambda>f. promise (snd f) = p) (running s)")
    case None
    with assms HandlerSettled show ?thesis by simp
  next
    case (Some f)
    let ?s = "s\<lparr>running := remove1 f (running s)\<rparr>"
    have st: "step e s = processQueue_resume (fst f) (snd f) out ?s"
      using HandlerSettled Some by simp
    show ?thesis
    proof (cases "fst f = k")
      case True
      with st show ?thesis using settle_resume_facts[of k "snd f" out ?s] by simp
    next
      case False
      with st have "started k (trace (step e s)) = started k (trace s)"
        by (simp add: started_resume_other)
      with assms(2) show ?thesis by simp
    qed
  qed
next
  case (CancelRequest k')
  with assms show ?thesis by (simp add: registry_order)
next
  case (CancelInterruptSettled k' io)
  with assms show ?thesis by (simp add: registry_resume_order split: if_splits)
next
  case (ResetRequest k')
  with assms show ?thesis by (simp add: registry_order)
next
  case (ResetInterruptSettled k' c io)
  with assms show ?thesis by (simp add: registry_resume_order split: if_splits)
next
  case (ClearQueue k')
  with assms show ?thesis by (simp add: clearQueue_order)
next
  case (SetAbortController k' c)
  with assms show ?thesis by (simp add: reg_defs)
next
  case (ClearAbortController k')
  with assms show ?thesis by (simp add: reg_defs)
next
  case (SetActiveQuery k' q)
  with assms show ?thesis by (simp add: reg_defs)
next
  case (ClearActiveQuery k')
  with assms show ?thesis by (simp add: reg_defs)
next
  case (ClearCancelled k')
  with assms show ?thesis by (simp add: reg_defs)
qed

subsection \<open>The example runs\<close>

lemma w_fields:
  "trace one_running_two_waiting =
     [Enqueued ''a'' 0, HandlerCalled ''a'' 0 11, Enqueued ''a'' 1, Enqueued ''a'' 2]"
  "running one_running_two_waiting = [(''a'', \<lparr>message = ''m1'', handler = 11, promise = 0\<rparr>)]"
  "pendingQueues one_running_two_waiting ''a'' =
     Some [\<lparr>message = ''m2'', handler = 12, promise = 1\<rparr>, \<lparr>message = ''m3'', handler = 13, promise = 2\<rparr>]"
  "processingFlags one_running_two_waiting ''a'' = Some True"
  "nextPromise one_running_two_waiting = 3"
  by (simp_all add: one_running_two_waiting_def queue_eval)

lemma registered_both_fields:
  "activeQueries registered_both ''a'' = Some 5"
  "activeAbortControllers registered_both ''a'' = Some 7"
  by (simp_all add: registered_both_def queue_eval)

lemma registered_signal_fields:
  "activeQueries registered_signal ''a'' = None"
  "activeAbortControllers registered_signal ''a'' = Some 7"
  by (simp_all add: registered_signal_def queue_eval)

subsection \<open>The claims\<close>

text \<open>
  Claim C1. In every state \<open>s\<close> that the module reaches from its initial state, by any
  sequence of calls and settlements, at most one call of a session key \<open>k\<close> is executing,
  and \<open>isProcessing k\<close> is true exactly when one is. A call submitted while \<open>k\<close> is
  processing is pushed on the queue and its handler is not called. While \<open>k\<close> is
  processing, the only step in which a handler of \<open>k\<close> is called is the settlement of the
  executing call of \<open>k\<close>: that call is no longer executing, the cleanup of the \<open>finally\<close>
  block has run and has set the flag to false, and from that state \<open>processQueue\<close> starts
  the next call.
\<close>

theorem one_call_per_key:
  assumes "s = run es init"
  shows "length (executing k s) \<le> 1
    \<and> isProcessing k s = (executing k s \<noteq> [])
    \<and> (isProcessing k s \<longrightarrow>
         running (snd (queueRequest k msg h s)) = running s
         \<and> trace (snd (queueRequest k msg h s)) = trace s @ [Enqueued k (nextPromise s)]
         \<and> waiting k (snd (queueRequest k msg h s)) = waiting k s @ [nextPromise s])
    \<and> (isProcessing k s \<and> started k (trace (step e s)) \<noteq> started k (trace s) \<longrightarrow>
         (\<exists>f out. e = HandlerSettled (promise (snd f)) out \<and> f \<in> set (running s) \<and> fst f = k
            \<and> executing k (s\<lparr>running := remove1 f (running s)\<rparr>) = []
            \<and> \<not> isProcessing k (cleanup k (deliver (snd f) out (s\<lparr>running := remove1 f (running s)\<rparr>)))
            \<and> step e s =
                processQueue k (cleanup k (deliver (snd f) out (s\<lparr>running := remove1 f (running s)\<rparr>)))))"
proof -
  have ser: "serial k s" unfolding assms by (rule serial_run[OF serial_init])
  then have a: "length (executing k s) \<le> 1" and b: "isProcessing k s = (executing k s \<noteq> [])"
    by (simp_all add: serial_def)
  have c: "running (snd (queueRequest k msg h s)) = running s
         \<and> trace (snd (queueRequest k msg h s)) = trace s @ [Enqueued k (nextPromise s)]
         \<and> waiting k (snd (queueRequest k msg h s)) = waiting k s @ [nextPromise s]"
    if "isProcessing k s"
    using that
    by (simp add: queueRequest_def Let_def processQueue_def isProcessing_def emit_def waiting_def
        split: option.splits)
  have d: "\<exists>f out. e = HandlerSettled (promise (snd f)) out \<and> f \<in> set (running s) \<and> fst f = k
            \<and> executing k (s\<lparr>running := remove1 f (running s)\<rparr>) = []
            \<and> \<not> isProcessing k (cleanup k (deliver (snd f) out (s\<lparr>running := remove1 f (running s)\<rparr>)))
            \<and> step e s =
                processQueue k (cleanup k (deliver (snd f) out (s\<lparr>running := remove1 f (running s)\<rparr>)))"
    if h: "isProcessing k s \<and> started k (trace (step e s)) \<noteq> started k (trace s)"
  proof -
    from h obtain f out where f: "e = HandlerSettled (promise (snd f)) out" "f \<in> set (running s)"
      "fst f = k"
      "step e s = processQueue k (cleanup k (deliver (snd f) out (s\<lparr>running := remove1 f (running s)\<rparr>)))"
      using started_step_settle_only[of k s e] by blast
    from f(2,3) a have "executing k (s\<lparr>running := remove1 f (running s)\<rparr>) = []"
      by (rule executing_remove1_same)
    moreover have "\<not> isProcessing k (cleanup k (deliver (snd f) out (s\<lparr>running := remove1 f (running s)\<rparr>)))"
      by (cases out) (simp_all add: cleanup_def deliver_def reg_defs split: option.splits)
    ultimately show ?thesis using f by blast
  qed
  from a b c d show ?thesis by blast
qed

text \<open>
  Claim C1 on the run with one call executing and two waiting: a fourth submission is only
  enqueued, and the settlement of the executing call is the step that starts the next.
\<close>

theorem one_call_per_key_witness:
  "length (executing ''a'' one_running_two_waiting) \<le> 1
   \<and> isProcessing ''a'' one_running_two_waiting
   \<and> executing ''a'' one_running_two_waiting \<noteq> []
   \<and> trace (snd (queueRequest ''a'' ''m4'' 14 one_running_two_waiting)) =
       trace one_running_two_waiting @ [Enqueued ''a'' 3]
   \<and> started ''a'' (trace (step (HandlerSettled 0 (Fulfilled JNull)) one_running_two_waiting))
       \<noteq> started ''a'' (trace one_running_two_waiting)
   \<and> (\<exists>f out. HandlerSettled 0 (Fulfilled JNull) = HandlerSettled (promise (snd f)) out
        \<and> f \<in> set (running one_running_two_waiting) \<and> fst f = ''a''
        \<and> step (HandlerSettled 0 (Fulfilled JNull)) one_running_two_waiting =
            processQueue ''a'' (cleanup ''a'' (deliver (snd f) out
              (one_running_two_waiting\<lparr>running := remove1 f (running one_running_two_waiting)\<rparr>))))"
proof -
  let ?s = one_running_two_waiting
  let ?e = "HandlerSettled 0 (Fulfilled JNull)"
  note T = one_call_per_key[OF one_running_two_waiting_def, of "''a''" "''m4''" 14 ?e]
  have p: "isProcessing ''a'' ?s" by (simp add: isProcessing_def w_fields)
  have c: "started ''a'' (trace (step ?e ?s)) \<noteq> started ''a'' (trace ?s)"
    by (simp add: w_fields queue_eval started_append)
  have n: "nextPromise ?s = 3" by (simp add: w_fields)
  from T p c n show ?thesis by auto
qed

text \<open>
  Claim C2. In every reachable state and for every session key \<open>k\<close>, the promises whose
  handler was called, in call order, followed by the promises that still wait, in queue
  order, are a subsequence of the promises enqueued for \<open>k\<close>, in the order of enqueueing:
  calls start in the order of their submissions, and a waiting call was submitted after
  every call that has started. The enqueued promises are pairwise different and so are the
  started ones: the handler of a submission is called at most once. In a run without
  \<open>clearQueue(k)\<close> the started and the waiting promises together are exactly the enqueued
  ones.
\<close>

theorem calls_start_in_enqueue_order:
  assumes "s = run es init"
  shows "subseq (started k (trace s) @ waiting k s) (enqueued k (trace s))
    \<and> distinct (enqueued k (trace s))
    \<and> distinct (started k (trace s))
    \<and> (ClearQueue k \<notin> set es \<longrightarrow> started k (trace s) @ waiting k s = enqueued k (trace s))"
proof -
  have f: "fifo k s" unfolding assms by (rule fifo_run[OF fifo_init])
  then have sub: "subseq (started k (trace s) @ waiting k s) (enqueued k (trace s))"
    and dis: "distinct (enqueued k (trace s))"
    by (simp_all add: fifo_def)
  from sub dis have "distinct (started k (trace s) @ waiting k s)" by (rule subseq_distinct)
  then have "distinct (started k (trace s))" by simp
  moreover have "ClearQueue k \<notin> set es \<longrightarrow> started k (trace s) @ waiting k s = enqueued k (trace s)"
    unfolding assms using exact_fifo_run[OF exact_fifo_init, of k es] by (simp add: exact_fifo_def)
  ultimately show ?thesis using sub dis by simp
qed

text \<open>
  Claim C2 on a run of three submissions and one settlement: the first two calls have
  started in the order of submission and the third waits.
\<close>

theorem calls_start_in_enqueue_order_witness:
  "ClearQueue ''a'' \<notin> set [QueueRequest ''a'' ''m1'' 11, QueueRequest ''a'' ''m2'' 12,
       QueueRequest ''a'' ''m3'' 13, HandlerSettled 0 (Fulfilled JNull)]
   \<and> started ''a'' (trace (run [QueueRequest ''a'' ''m1'' 11, QueueRequest ''a'' ''m2'' 12,
       QueueRequest ''a'' ''m3'' 13, HandlerSettled 0 (Fulfilled JNull)] init)) = [0, 1]
   \<and> started ''a'' (trace (run [QueueRequest ''a'' ''m1'' 11, QueueRequest ''a'' ''m2'' 12,
       QueueRequest ''a'' ''m3'' 13, HandlerSettled 0 (Fulfilled JNull)] init))
       @ waiting ''a'' (run [QueueRequest ''a'' ''m1'' 11, QueueRequest ''a'' ''m2'' 12,
       QueueRequest ''a'' ''m3'' 13, HandlerSettled 0 (Fulfilled JNull)] init)
     = enqueued ''a'' (trace (run [QueueRequest ''a'' ''m1'' 11, QueueRequest ''a'' ''m2'' 12,
       QueueRequest ''a'' ''m3'' 13, HandlerSettled 0 (Fulfilled JNull)] init))"
proof -
  let ?es = "[QueueRequest ''a'' ''m1'' 11, QueueRequest ''a'' ''m2'' 12,
       QueueRequest ''a'' ''m3'' 13, HandlerSettled 0 (Fulfilled JNull)]"
  note T = calls_start_in_enqueue_order[OF refl, of "''a''" ?es]
  have h: "ClearQueue ''a'' \<notin> set ?es" by simp
  have v: "started ''a'' (trace (run ?es init)) = [0, 1]" by (simp add: queue_eval)
  from T h have "started ''a'' (trace (run ?es init)) @ waiting ''a'' (run ?es init)
     = enqueued ''a'' (trace (run ?es init))" by blast
  with h v show ?thesis by blast
qed

text \<open>
  Claim C3. When the promise of a handler settles, whatever the outcome, the cleanup sets
  the processing flag of the key to false and removes the query, the abort controller and
  the cancelled mark of the key; \<open>processQueue\<close> then starts the next call from that state
  if one waits. After the whole step the key has no query, no abort controller and no
  cancelled mark, and it is processing exactly when a call was waiting. The fourth part
  states the same for the step of a run in which the call of promise \<open>p\<close> settles. The
  last part is about later calls: in a run in which handles are registered for a key only
  while a call of that key is executing, every step that calls a handler of the key ends
  in a state where the key has no query, no abort controller and no cancelled mark.
\<close>

theorem settle_clears_cancellation_state:
  "processingFlags (cleanup k (deliver r out s)) k = Some False
   \<and> activeQueries (cleanup k (deliver r out s)) k = None
   \<and> activeAbortControllers (cleanup k (deliver r out s)) k = None
   \<and> \<not> isCancelled k (cleanup k (deliver r out s))
   \<and> processQueue_resume k r out s =
       (if 0 < getQueuePosition k s then processQueue k (cleanup k (deliver r out s))
        else cleanup k (deliver r out s))
   \<and> activeQueries (processQueue_resume k r out s) k = None
   \<and> activeAbortControllers (processQueue_resume k r out s) k = None
   \<and> \<not> isCancelled k (processQueue_resume k r out s)
   \<and> isProcessing k (processQueue_resume k r out s) = (0 < getQueuePosition k s)
   \<and> (find (\<lambda>f. promise (snd f) = p) (running s) = Some f \<longrightarrow>
        activeQueries (step (HandlerSettled p out) s) (fst f) = None
        \<and> activeAbortControllers (step (HandlerSettled p out) s) (fst f) = None
        \<and> \<not> isCancelled (fst f) (step (HandlerSettled p out) s)
        \<and> isProcessing (fst f) (step (HandlerSettled p out) s) = (0 < getQueuePosition (fst f) s))
   \<and> (disciplined es init
        \<and> started k (trace (step e (run es init))) \<noteq> started k (trace (run es init)) \<longrightarrow>
        activeQueries (step e (run es init)) k = None
        \<and> activeAbortControllers (step e (run es init)) k = None
        \<and> \<not> isCancelled k (step e (run es init)))"
proof -
  have "activeQueries (step (HandlerSettled p out) s) (fst f) = None
        \<and> activeAbortControllers (step (HandlerSettled p out) s) (fst f) = None
        \<and> \<not> isCancelled (fst f) (step (HandlerSettled p out) s)
        \<and> isProcessing (fst f) (step (HandlerSettled p out) s) = (0 < getQueuePosition (fst f) s)"
    if h: "find (\<lambda>f. promise (snd f) = p) (running s) = Some f"
  proof -
    let ?s = "s\<lparr>running := remove1 f (running s)\<rparr>"
    have "step (HandlerSettled p out) s = processQueue_resume (fst f) (snd f) out ?s"
      using h by simp
    moreover have "getQueuePosition (fst f) ?s = getQueuePosition (fst f) s"
      by (simp add: getQueuePosition_def)
    ultimately show ?thesis
      using settle_resume_facts[of "fst f" "snd f" out ?s] by simp
  qed
  moreover have "activeQueries (step e (run es init)) k = None
        \<and> activeAbortControllers (step e (run es init)) k = None
        \<and> \<not> isCancelled k (step e (run es init))"
    if h: "disciplined es init
        \<and> started k (trace (step e (run es init))) \<noteq> started k (trace (run es init))"
  proof -
    from h have "idle_clean k (run es init)" by (intro idle_clean_run idle_clean_init) simp
    with h show ?thesis by (intro started_step_clean) auto
  qed
  ultimately show ?thesis
    using settle_cleanup_facts[of k r out s] settle_resume_eq[of k r out s]
      settle_resume_facts[of k r out s]
    by blast
qed

text \<open>
  Claim C3 on a call that registered a query and an abort controller and was cancelled:
  when its handler fails, the three entries of the key are gone, also when that step
  starts a waiting call.
\<close>

theorem settle_clears_cancellation_state_witness:
  "isCancelled ''a'' cancel_requested
   \<and> activeQueries cancel_requested ''a'' = Some 5
   \<and> activeAbortControllers cancel_requested ''a'' = Some 7
   \<and> find (\<lambda>f. promise (snd f) = 0) (running cancel_requested)
       = Some (''a'', \<lparr>message = ''m1'', handler = 11, promise = 0\<rparr>)
   \<and> activeQueries (step (HandlerSettled 0 (Threw (JError ''interrupted''))) cancel_requested) ''a'' = None
   \<and> activeAbortControllers (step (HandlerSettled 0 (Threw (JError ''interrupted''))) cancel_requested) ''a'' = None
   \<and> \<not> isCancelled ''a'' (step (HandlerSettled 0 (Threw (JError ''interrupted''))) cancel_requested)
   \<and> disciplined [QueueRequest ''a'' ''m1'' 11, SetActiveQuery ''a'' 5, CancelRequest ''a'',
        QueueRequest ''a'' ''m2'' 12] init
   \<and> isCancelled ''a'' (run [QueueRequest ''a'' ''m1'' 11, SetActiveQuery ''a'' 5, CancelRequest ''a'',
        QueueRequest ''a'' ''m2'' 12] init)
   \<and> started ''a'' (trace (step (HandlerSettled 0 (Threw (JError ''interrupted'')))
        (run [QueueRequest ''a'' ''m1'' 11, SetActiveQuery ''a'' 5, CancelRequest ''a'',
          QueueRequest ''a'' ''m2'' 12] init))) = [0, 1]
   \<and> \<not> isCancelled ''a'' (step (HandlerSettled 0 (Threw (JError ''interrupted'')))
        (run [QueueRequest ''a'' ''m1'' 11, SetActiveQuery ''a'' 5, CancelRequest ''a'',
          QueueRequest ''a'' ''m2'' 12] init))
   \<and> activeQueries (step (HandlerSettled 0 (Threw (JError ''interrupted'')))
        (run [QueueRequest ''a'' ''m1'' 11, SetActiveQuery ''a'' 5, CancelRequest ''a'',
          QueueRequest ''a'' ''m2'' 12] init)) ''a'' = None"
proof -
  let ?s = cancel_requested
  let ?f = "(''a'', \<lparr>message = ''m1'', handler = 11, promise = 0\<rparr>)"
  let ?out = "Threw (JError ''interrupted'')"
  let ?es = "[QueueRequest ''a'' ''m1'' 11, SetActiveQuery ''a'' 5, CancelRequest ''a'',
        QueueRequest ''a'' ''m2'' 12]"
  note T = settle_clears_cancellation_state[where k = "''a''" and out = ?out and s = ?s
      and p = 0 and f = ?f and es = ?es and e = "HandlerSettled 0 ?out"]
  have a: "isCancelled ''a'' ?s" "activeQueries ?s ''a'' = Some 5" "activeAbortControllers ?s ''a'' = Some 7"
    by (simp_all add: cancel_requested_def registered_both_def queue_eval)
  have f: "find (\<lambda>f. promise (snd f) = 0) (running ?s) = Some ?f"
    by (simp add: cancel_requested_def registered_both_def queue_eval)
  have d: "disciplined ?es init" by (simp add: queue_eval)
  have c: "isCancelled ''a'' (run ?es init)" by (simp add: queue_eval)
  have b: "started ''a'' (trace (run ?es init)) = [0]" by (simp add: queue_eval)
  have n: "started ''a'' (trace (step (HandlerSettled 0 ?out) (run ?es init))) = [0, 1]"
    by (simp add: queue_eval)
  from T f have "activeQueries (step (HandlerSettled 0 ?out) ?s) (fst ?f) = None
      \<and> activeAbortControllers (step (HandlerSettled 0 ?out) ?s) (fst ?f) = None
      \<and> \<not> isCancelled (fst ?f) (step (HandlerSettled 0 ?out) ?s)" by blast
  then have t1: "activeQueries (step (HandlerSettled 0 ?out) ?s) ''a'' = None
      \<and> activeAbortControllers (step (HandlerSettled 0 ?out) ?s) ''a'' = None
      \<and> \<not> isCancelled ''a'' (step (HandlerSettled 0 ?out) ?s)" by simp
  from b n have "started ''a'' (trace (step (HandlerSettled 0 ?out) (run ?es init)))
      \<noteq> started ''a'' (trace (run ?es init))" by simp
  with T d have t2: "activeQueries (step (HandlerSettled 0 ?out) (run ?es init)) ''a'' = None
      \<and> \<not> isCancelled ''a'' (step (HandlerSettled 0 ?out) (run ?es init))" by blast
  from a f d c n t1 t2 show ?thesis by blast
qed

text \<open>
  Claim C4. \<open>clearQueue(k)\<close> returns the number of waiting calls of \<open>k\<close>, rejects
  exactly these, in queue order, each with the error \<open>Queue cleared\<close>, and leaves the queue
  empty. It changes neither the executing calls nor the processing flags nor the
  cancellation registry. A call executing afterwards settles as usual: its outcome is
  delivered and the cleanup runs, and a fulfilled handler resolves its promise. In a
  reachable state the executing call of \<open>k\<close> is not among the waiting ones, so it is not
  rejected.
\<close>

theorem clearQueue_discards_waiting:
  "fst (clearQueue k s) = getQueuePosition k s
   \<and> trace (snd (clearQueue k s)) =
       trace s @ map (\<lambda>p. Rejected p (JError ''Queue cleared'')) (waiting k s)
   \<and> waiting k (snd (clearQueue k s)) = []
   \<and> getQueuePosition k (snd (clearQueue k s)) = 0
   \<and> running (snd (clearQueue k s)) = running s
   \<and> processingFlags (snd (clearQueue k s)) = processingFlags s
   \<and> activeQueries (snd (clearQueue k s)) = activeQueries s
   \<and> activeAbortControllers (snd (clearQueue k s)) = activeAbortControllers s
   \<and> cancelledChats (snd (clearQueue k s)) = cancelledChats s
   \<and> processQueue_resume k r out (snd (clearQueue k s)) =
       cleanup k (deliver r out (snd (clearQueue k s)))
   \<and> trace (processQueue_resume k r (Fulfilled v) (snd (clearQueue k s))) =
       trace (snd (clearQueue k s)) @ [Resolved (promise r) v]
   \<and> (s = run es init \<and> r' \<in> set (executing k s) \<longrightarrow> promise r' \<notin> set (waiting k s))"
  using clearQueue_effect[of k s r out v] executing_not_waiting[of s es r' k] by blast

text \<open>
  Claim C4 on the run with one call executing and two waiting: \<open>clearQueue\<close> returns 2 and
  rejects the promises 1 and 2; promise 0 of the executing call is resolved afterwards.
\<close>

theorem clearQueue_discards_waiting_witness:
  "fst (clearQueue ''a'' one_running_two_waiting) = 2
   \<and> trace (snd (clearQueue ''a'' one_running_two_waiting)) =
       trace one_running_two_waiting
         @ [Rejected 1 (JError ''Queue cleared''), Rejected 2 (JError ''Queue cleared'')]
   \<and> running (snd (clearQueue ''a'' one_running_two_waiting)) = running one_running_two_waiting
   \<and> executing ''a'' one_running_two_waiting = [\<lparr>message = ''m1'', handler = 11, promise = 0\<rparr>]
   \<and> 0 \<notin> set (waiting ''a'' one_running_two_waiting)
   \<and> trace (processQueue_resume ''a'' \<lparr>message = ''m1'', handler = 11, promise = 0\<rparr>
         (Fulfilled (JString ''done'')) (snd (clearQueue ''a'' one_running_two_waiting))) =
       trace (snd (clearQueue ''a'' one_running_two_waiting)) @ [Resolved 0 (JString ''done'')]"
proof -
  let ?s = one_running_two_waiting
  let ?r = "\<lparr>message = ''m1'', handler = 11, promise = 0\<rparr>"
  note T = clearQueue_discards_waiting[of "''a''" ?s ?r "Fulfilled (JString ''done'')"
      "JString ''done''" "[QueueRequest ''a'' ''m1'' 11, QueueRequest ''a'' ''m2'' 12, QueueRequest ''a'' ''m3'' 13]" ?r]
  have e: "executing ''a'' ?s = [?r]" by (simp add: executing_def w_fields)
  have w: "waiting ''a'' ?s = [1, 2]" by (simp add: waiting_def w_fields)
  have g: "getQueuePosition ''a'' ?s = 2" by (simp add: getQueuePosition_def w_fields)
  have r: "?s = run [QueueRequest ''a'' ''m1'' 11, QueueRequest ''a'' ''m2'' 12, QueueRequest ''a'' ''m3'' 13] init"
    by (rule one_running_two_waiting_def)
  from T r e have t1: "promise ?r \<notin> set (waiting ''a'' ?s)" by simp
  from T have t2: "fst (clearQueue ''a'' ?s) = getQueuePosition ''a'' ?s"
    and t3: "trace (snd (clearQueue ''a'' ?s)) =
       trace ?s @ map (\<lambda>p. Rejected p (JError ''Queue cleared'')) (waiting ''a'' ?s)"
    and t4: "running (snd (clearQueue ''a'' ?s)) = running ?s"
    and t5: "trace (processQueue_resume ''a'' ?r (Fulfilled (JString ''done'')) (snd (clearQueue ''a'' ?s))) =
       trace (snd (clearQueue ''a'' ?s)) @ [Resolved (promise ?r) (JString ''done'')]"
    by blast+
  from t1 t2 t3 t4 t5 e w g show ?thesis by simp
qed

text \<open>
  Claim C5. With a query registered for the key, \<open>cancelRequest\<close> marks the session as
  cancelled and then calls \<open>interrupt()\<close> on the query, which sees the mark; it calls
  \<open>abort()\<close> on no controller, neither before nor after the \<open>await\<close>, and leaves the
  registered controller in place. With no query but an abort controller registered, it
  marks the session and then calls \<open>abort()\<close>. With neither, it returns false and changes
  nothing. After the \<open>await\<close> it returns true; a failure of \<open>interrupt()\<close> is only logged.
\<close>

theorem cancelRequest_prefers_interrupt:
  "(activeQueries s k = Some q \<longrightarrow>
      fst (cancelRequest k s) = None
      \<and> trace (snd (cancelRequest k s)) = trace s @ [Interrupted q True]
      \<and> isCancelled k (snd (cancelRequest k s))
      \<and> activeAbortControllers (snd (cancelRequest k s)) = activeAbortControllers s
      \<and> cancelling (snd (cancelRequest k s)) = cancelling s @ [k])
   \<and> (activeQueries s k = None \<and> activeAbortControllers s k = Some c \<longrightarrow>
      fst (cancelRequest k s) = Some True
      \<and> trace (snd (cancelRequest k s)) = trace s @ [Aborted c True]
      \<and> isCancelled k (snd (cancelRequest k s)))
   \<and> (activeQueries s k = None \<and> activeAbortControllers s k = None \<longrightarrow>
      cancelRequest k s = (Some False, s))
   \<and> fst (cancelRequest_resume k io s') = True
   \<and> trace (snd (cancelRequest_resume k io s')) =
       trace s' @ (case io of Fulfilled v \<Rightarrow> [] | Threw e \<Rightarrow> [DebugLogged k e])
   \<and> activeAbortControllers (snd (cancelRequest_resume k io s')) = activeAbortControllers s'"
  by (cases io) (simp_all add: cancelRequest_def cancelRequest_resume_def reg_defs)

text \<open>
  Claim C5 on the three cases: both handles registered, the abort controller only, nothing.
\<close>

theorem cancelRequest_prefers_interrupt_witness:
  "activeQueries registered_both ''a'' = Some 5
   \<and> activeAbortControllers registered_both ''a'' = Some 7
   \<and> trace (snd (cancelRequest ''a'' registered_both)) = trace registered_both @ [Interrupted 5 True]
   \<and> activeQueries registered_signal ''a'' = None
   \<and> activeAbortControllers registered_signal ''a'' = Some 7
   \<and> trace (snd (cancelRequest ''a'' registered_signal)) = trace registered_signal @ [Aborted 7 True]
   \<and> activeQueries init ''a'' = None
   \<and> activeAbortControllers init ''a'' = None
   \<and> cancelRequest ''a'' init = (Some False, init)"
proof -
  note T1 = cancelRequest_prefers_interrupt[where s = registered_both and k = "''a''" and q = 5]
  note T2 = cancelRequest_prefers_interrupt[where s = registered_signal and k = "''a''" and c = 7]
  note T3 = cancelRequest_prefers_interrupt[where s = init and k = "''a''"]
  have i: "activeQueries init ''a'' = None" "activeAbortControllers init ''a'' = None"
    by (simp_all add: init_def)
  from T1 registered_both_fields
  have a: "trace (snd (cancelRequest ''a'' registered_both)) = trace registered_both @ [Interrupted 5 True]"
    by blast
  from T2 registered_signal_fields
  have b: "trace (snd (cancelRequest ''a'' registered_signal)) = trace registered_signal @ [Aborted 7 True]"
    by blast
  from T3 i have c: "cancelRequest ''a'' init = (Some False, init)" by blast
  from a b c i registered_both_fields registered_signal_fields show ?thesis by blast
qed

text \<open>
  Claim C6. With a query registered, \<open>resetRequest\<close> marks the session as cancelled and
  then calls \<open>interrupt()\<close>; after the \<open>await\<close>, whether \<open>interrupt()\<close> failed or not, it
  calls \<open>abort()\<close> on the controller that was registered when it started, if there was
  one, removes query and controller and returns true. With no query but a controller, it
  marks the session, calls \<open>abort()\<close>, removes the controller and returns true. With
  neither, it returns false and changes nothing.
\<close>

theorem resetRequest_fires_both:
  "(activeQueries s k = Some q \<longrightarrow>
      fst (resetRequest k s) = None
      \<and> trace (snd (resetRequest k s)) = trace s @ [Interrupted q True]
      \<and> isCancelled k (snd (resetRequest k s))
      \<and> resetting (snd (resetRequest k s)) = resetting s @ [(k, activeAbortControllers s k)]
      \<and> trace (snd (resetRequest_resume k (activeAbortControllers s k) io (snd (resetRequest k s)))) =
          trace s @ [Interrupted q True]
            @ (case io of Fulfilled v \<Rightarrow> [] | Threw e \<Rightarrow> [DebugLogged k e])
            @ (case activeAbortControllers s k of None \<Rightarrow> [] | Some a \<Rightarrow> [Aborted a True]))
   \<and> (activeQueries s k = None \<and> activeAbortControllers s k = Some c \<longrightarrow>
      fst (resetRequest k s) = Some True
      \<and> trace (snd (resetRequest k s)) = trace s @ [Aborted c True]
      \<and> isCancelled k (snd (resetRequest k s))
      \<and> activeAbortControllers (snd (resetRequest k s)) k = None)
   \<and> (activeQueries s k = None \<and> activeAbortControllers s k = None \<longrightarrow>
      resetRequest k s = (Some False, s))
   \<and> fst (resetRequest_resume k (Some c) io s') = True
   \<and> trace (snd (resetRequest_resume k (Some c) io s')) =
       trace s' @ (case io of Fulfilled v \<Rightarrow> [] | Threw e \<Rightarrow> [DebugLogged k e])
         @ [Aborted c (isCancelled k s')]
   \<and> fst (resetRequest_resume k None io s') = True
   \<and> trace (snd (resetRequest_resume k None io s')) =
       trace s' @ (case io of Fulfilled v \<Rightarrow> [] | Threw e \<Rightarrow> [DebugLogged k e])
   \<and> activeQueries (snd (resetRequest_resume k co io s')) k = None
   \<and> activeAbortControllers (snd (resetRequest_resume k co io s')) k = None"
  by (cases io; cases co; cases "activeAbortControllers s k"; cases "activeQueries s k")
     (simp_all add: resetRequest_def resetRequest_resume_def reg_defs)

text \<open>
  Claim C6 on the three cases; in the first, \<open>interrupt()\<close> throws and \<open>abort()\<close> is still
  called.
\<close>

theorem resetRequest_fires_both_witness:
  "activeQueries registered_both ''a'' = Some 5
   \<and> activeAbortControllers registered_both ''a'' = Some 7
   \<and> trace (snd (resetRequest_resume ''a'' (Some 7) (Threw (JError ''closed''))
        (snd (resetRequest ''a'' registered_both)))) =
       trace registered_both
         @ [Interrupted 5 True, DebugLogged ''a'' (JError ''closed''), Aborted 7 True]
   \<and> activeQueries registered_signal ''a'' = None
   \<and> activeAbortControllers registered_signal ''a'' = Some 7
   \<and> trace (snd (resetRequest ''a'' registered_signal)) = trace registered_signal @ [Aborted 7 True]
   \<and> activeQueries init ''a'' = None
   \<and> activeAbortControllers init ''a'' = None
   \<and> resetRequest ''a'' init = (Some False, init)"
proof -
  note T1 = resetRequest_fires_both[where s = registered_both and k = "''a''" and q = 5
      and io = "Threw (JError ''closed'')"]
  note T2 = resetRequest_fires_both[where s = registered_signal and k = "''a''" and c = 7]
  note T3 = resetRequest_fires_both[where s = init and k = "''a''"]
  have i: "activeQueries init ''a'' = None" "activeAbortControllers init ''a'' = None"
    by (simp_all add: init_def)
  from T1 registered_both_fields(1)
  have "trace (snd (resetRequest_resume ''a'' (activeAbortControllers registered_both ''a'')
          (Threw (JError ''closed'')) (snd (resetRequest ''a'' registered_both)))) =
        trace registered_both @ [Interrupted 5 True]
          @ (case Threw (JError ''closed'') of Fulfilled v \<Rightarrow> [] | Threw e \<Rightarrow> [DebugLogged ''a'' e])
          @ (case activeAbortControllers registered_both ''a'' of None \<Rightarrow> [] | Some a \<Rightarrow> [Aborted a True])"
    by blast
  then have a: "trace (snd (resetRequest_resume ''a'' (Some 7) (Threw (JError ''closed''))
        (snd (resetRequest ''a'' registered_both)))) =
       trace registered_both
         @ [Interrupted 5 True, DebugLogged ''a'' (JError ''closed''), Aborted 7 True]"
    by (simp add: registered_both_fields)
  from T2 registered_signal_fields
  have b: "trace (snd (resetRequest ''a'' registered_signal)) = trace registered_signal @ [Aborted 7 True]"
    by blast
  from T3 i have c: "resetRequest ''a'' init = (Some False, init)" by blast
  from a b c i registered_both_fields registered_signal_fields show ?thesis by blast
qed

text \<open>
  Claim C7, as amended. \<open>cancelRequest\<close> returns false exactly when neither a query nor
  an abort controller is registered for the key; it returns true at once exactly when only
  a controller is registered; it is suspended at \<open>interrupt()\<close> exactly when a query is
  registered, and then returns true when resumed. With neither registered it leaves the
  state as it is, however often it is repeated. In a run in which handles are registered
  for a key only while a call of that key is executing, a key that is not processing has
  no handle, so there \<open>cancelRequest\<close> returns false and changes nothing.
\<close>

theorem cancelRequest_result:
  "(fst (cancelRequest k s) = Some False) = (activeQueries s k = None \<and> activeAbortControllers s k = None)
   \<and> (fst (cancelRequest k s) = Some True) = (activeQueries s k = None \<and> activeAbortControllers s k \<noteq> None)
   \<and> (fst (cancelRequest k s) = None) = (activeQueries s k \<noteq> None)
   \<and> fst (cancelRequest_resume k io s') = True
   \<and> (activeQueries s k = None \<and> activeAbortControllers s k = None \<longrightarrow>
        cancelRequest k s = (Some False, s)
        \<and> run (replicate n (CancelRequest k)) s = s)
   \<and> (disciplined es init \<and> \<not> isProcessing k (run es init) \<longrightarrow>
        cancelRequest k (run es init) = (Some False, run es init)
        \<and> run (replicate n (CancelRequest k)) (run es init) = run es init)"
proof -
  have noop: "cancelRequest k t = (Some False, t) \<and> run (replicate n (CancelRequest k)) t = t"
    if h: "activeQueries t k = None \<and> activeAbortControllers t k = None" for t
  proof -
    from h have c: "cancelRequest k t = (Some False, t)"
      by (simp add: cancelRequest_def)
    then have "step (CancelRequest k) t = t" by simp
    then have "run (replicate n (CancelRequest k)) t = t"
      by (rule run_replicate_fixed)
    with c show ?thesis by simp
  qed
  have "cancelRequest k (run es init) = (Some False, run es init)
      \<and> run (replicate n (CancelRequest k)) (run es init) = run es init"
    if h: "disciplined es init \<and> \<not> isProcessing k (run es init)"
  proof -
    from h have "idle_clean k (run es init)" by (intro idle_clean_run idle_clean_init) simp
    with h have "activeQueries (run es init) k = None \<and> activeAbortControllers (run es init) k = None"
      by (simp add: idle_clean_def)
    then show ?thesis by (rule noop)
  qed
  moreover have "(fst (cancelRequest k s) = Some False) = (activeQueries s k = None \<and> activeAbortControllers s k = None)"
    "(fst (cancelRequest k s) = Some True) = (activeQueries s k = None \<and> activeAbortControllers s k \<noteq> None)"
    "(fst (cancelRequest k s) = None) = (activeQueries s k \<noteq> None)"
    "fst (cancelRequest_resume k io s') = True"
    by (auto simp: cancelRequest_def cancelRequest_resume_def Let_def split: option.splits)
  ultimately show ?thesis using noop[of s] by blast
qed

text \<open>
  Claim C7, as amended, on a key whose only call registered a query and has settled: the
  key has no handle, and three \<open>cancelRequest\<close> calls in a row change nothing.
\<close>

theorem cancelRequest_result_witness:
  "disciplined [QueueRequest ''a'' ''m1'' 11, SetActiveQuery ''a'' 5, HandlerSettled 0 (Fulfilled JNull)] init
   \<and> \<not> isProcessing ''a'' settled_idle
   \<and> activeQueries settled_idle ''a'' = None
   \<and> activeAbortControllers settled_idle ''a'' = None
   \<and> cancelRequest ''a'' settled_idle = (Some False, settled_idle)
   \<and> run (replicate 3 (CancelRequest ''a'')) settled_idle = settled_idle"
proof -
  let ?es = "[QueueRequest ''a'' ''m1'' 11, SetActiveQuery ''a'' 5, HandlerSettled 0 (Fulfilled JNull)]"
  note T = cancelRequest_result[where es = ?es and k = "''a''" and n = 3 and s = settled_idle]
  have d: "disciplined ?es init" by (simp add: queue_eval)
  have p: "\<not> isProcessing ''a'' (run ?es init)" by (simp add: queue_eval)
  have q: "activeQueries settled_idle ''a'' = None" "activeAbortControllers settled_idle ''a'' = None"
    by (simp_all add: settled_idle_def queue_eval)
  from T d p have "cancelRequest ''a'' (run ?es init) = (Some False, run ?es init)
        \<and> run (replicate 3 (CancelRequest ''a'')) (run ?es init) = run ?es init" by blast
  then have a: "cancelRequest ''a'' settled_idle = (Some False, settled_idle)
        \<and> run (replicate 3 (CancelRequest ''a'')) settled_idle = settled_idle"
    unfolding settled_idle_def .
  from T q have "cancelRequest ''a'' settled_idle = (Some False, settled_idle)" by blast
  with a d p q show ?thesis unfolding settled_idle_def by blast
qed

text \<open>
  Claim C7 as stated fails on a key with nothing in flight for which an abort controller
  was registered through the exported \<open>setAbortController\<close>: \<open>cancelRequest\<close> returns true,
  marks the session and aborts the controller.
\<close>

theorem cancelRequest_result_counterexample:
  "\<not> isProcessing ''a'' (run [SetAbortController ''a'' 7] init)
   \<and> fst (cancelRequest ''a'' (run [SetAbortController ''a'' 7] init)) = Some True
   \<and> trace (snd (cancelRequest ''a'' (run [SetAbortController ''a'' 7] init))) = [Aborted 7 True]
   \<and> isCancelled ''a'' (snd (cancelRequest ''a'' (run [SetAbortController ''a'' 7] init)))"
  by (simp add: queue_eval)

text \<open>
  A thrown object that \<open>String\<close> cannot convert: the \<open>catch\<close> block calls no \<open>reject\<close>.
\<close>

lemma deliver_unconvertible: "deliver r (Threw (JObject None)) s = s"
  by (simp add: deliver_def rejection_def)

text \<open>
  Claim C8, as amended. When the handler of a call throws \<open>e\<close>, and \<open>e\<close> is an \<open>Error\<close>
  instance or \<open>String(e)\<close> is the string \<open>m\<close>, the promise of the call is rejected with \<open>e\<close>
  itself in the first case and with a new \<open>Error\<close> of message \<open>m\<close> in the second. Nothing
  else is rejected: the head of the queue of the key, if any, is started next, the other
  waiting calls of the key keep waiting in their order, and the queues of the other keys
  are unchanged.
\<close>

theorem operation_failure_is_isolated:
  assumes "instanceof_Error e \<or> js_String e = Some m"
  shows "trace (processQueue_resume k r (Threw e) s) =
     trace s @ [Rejected (promise r) (if instanceof_Error e then e else JError m)]
       @ (case pendingQueues s k of
            Some (r' # rest) \<Rightarrow> [HandlerCalled k (promise r') (handler r')]
          | _ \<Rightarrow> [])
   \<and> waiting k (processQueue_resume k r (Threw e) s) = tl (waiting k s)
   \<and> (k' \<noteq> k \<longrightarrow> waiting k' (processQueue_resume k r (Threw e) s) = waiting k' s)
   \<and> started k (trace (processQueue_resume k r (Threw e) s)) =
       started k (trace s) @ take 1 (waiting k s)"
proof -
  from assms have rj: "rejection e = Some (if instanceof_Error e then e else JError m)"
    by (auto simp: rejection_def)
  show ?thesis
    by (cases "pendingQueues s k"; cases "the (pendingQueues s k)")
       (simp_all add: processQueue_resume_def processQueue_def cleanup_def deliver_def rj reg_defs
         waiting_def started_append)
qed

text \<open>
  Claim C8, as amended, on two keys with one call executing and one waiting each: the
  handler of the first call of \<open>a\<close> throws the string \<open>boom\<close>.
\<close>

theorem operation_failure_is_isolated_witness:
  "js_String (JString ''boom'') = Some ''boom''
   \<and> ''b'' \<noteq> ''a''
   \<and> trace (processQueue_resume ''a'' \<lparr>message = ''m1'', handler = 11, promise = 0\<rparr>
        (Threw (JString ''boom'')) two_keys_busy) =
       trace two_keys_busy @ [Rejected 0 (JError ''boom''), HandlerCalled ''a'' 1 12]
   \<and> waiting ''b'' (processQueue_resume ''a'' \<lparr>message = ''m1'', handler = 11, promise = 0\<rparr>
        (Threw (JString ''boom'')) two_keys_busy) = waiting ''b'' two_keys_busy
   \<and> waiting ''b'' two_keys_busy = [3]"
proof -
  let ?r = "\<lparr>message = ''m1'', handler = 11, promise = 0\<rparr>"
  have h: "instanceof_Error (JString ''boom'') \<or> js_String (JString ''boom'') = Some ''boom''"
    by simp
  note T = operation_failure_is_isolated[OF h, of "''a''" ?r two_keys_busy "''b''"]
  have q: "pendingQueues two_keys_busy ''a'' = Some [\<lparr>message = ''m2'', handler = 12, promise = 1\<rparr>]"
    by (simp add: two_keys_busy_def queue_eval)
  have w: "waiting ''b'' two_keys_busy = [3]" by (simp add: two_keys_busy_def queue_eval)
  have n: "''b'' \<noteq> ''a''" by simp
  have c: "js_String (JString ''boom'') = Some ''boom''" by simp
  from T have "trace (processQueue_resume ''a'' ?r (Threw (JString ''boom'')) two_keys_busy) =
     trace two_keys_busy @ [Rejected (promise ?r)
        (if instanceof_Error (JString ''boom'') then JString ''boom'' else JError ''boom'')]
       @ (case pendingQueues two_keys_busy ''a'' of
            Some (r' # rest) \<Rightarrow> [HandlerCalled ''a'' (promise r') (handler r')]
          | _ \<Rightarrow> [])" by blast
  then have a: "trace (processQueue_resume ''a'' ?r (Threw (JString ''boom'')) two_keys_busy) =
       trace two_keys_busy @ [Rejected 0 (JError ''boom''), HandlerCalled ''a'' 1 12]"
    by (simp add: q)
  from T n have b: "waiting ''b'' (processQueue_resume ''a'' ?r (Threw (JString ''boom'')) two_keys_busy)
      = waiting ''b'' two_keys_busy" by blast
  from a b w n c show ?thesis by blast
qed

text \<open>
  Claim C8 as stated fails when the handler throws a value that is not an \<open>Error\<close>
  instance: the string \<open>boom\<close> is thrown, and the promise is never rejected with that
  string (it is rejected with a new \<open>Error\<close>).
\<close>

theorem operation_failure_is_isolated_counterexample:
  "Rejected 0 (JString ''boom'') \<notin> set (trace (run [QueueRequest ''a'' ''m1'' 11,
      HandlerSettled 0 (Threw (JString ''boom''))] init))"
  by (simp add: queue_eval)




end
